theory Spec2Isabelle
  imports Main
begin

chapter \<open>The search-navigate engine: reactive store, history queue, codec, merge, router\<close>

text \<open>
  A shallow embedding of \<^verbatim>\<open>src/index.ts\<close>. Conventions used throughout:
  \<^item> Callbacks that the embedding application supplies (store listeners, the
    \<^verbatim>\<open>onUpdate\<close> hook, history listeners, the host adapter) act on an explicit
    world \<open>'w\<close> that is threaded through every operation. A callback is a function on
    the world; it does not call back into the object that invokes it.
  \<^item> An exception is a value: an operation that can throw returns
    \<open>'e option \<times> _\<close> (the exception, if any, and the state it leaves behind).
  \<^item> Equality of store states stands for JavaScript's \<^verbatim>\<open>===\<close>; where the source
    allocates a fresh object the model pairs the fields with a fresh reference.
  \<^item> A string is the list of the bytes of its UTF-8 encoding, so every string of the
    model that is valid UTF-8 is a JavaScript string without lone surrogates.
\<close>

section \<open>Reactive store (class Store)\<close>

type_synonym ('s, 'w) Listener = "'s \<Rightarrow> 's \<Rightarrow> 'w \<Rightarrow> 'w"

record ('s, 'w) StoreOptions =
  updateFn :: "('s \<Rightarrow> ('s \<Rightarrow> 's) \<Rightarrow> 's) option"
  onUpdate :: "('s, 'w) Listener option"

text \<open>
  \<open>listeners\<close> is the iteration order of the source's \<^verbatim>\<open>Set\<close>. Every closure in
  the source's \<^verbatim>\<open>queue\<close> is \<^verbatim>\<open>() => listeners.forEach(l => l(this.state, previous))\<close>;
  it is kept as the \<^verbatim>\<open>previous\<close> it captured, and \<open>notify\<close> runs it.
\<close>

record ('s, 'w) Store =
  listeners :: "('s, 'w) Listener list"
  state :: 's
  options :: "('s, 'w) StoreOptions option"
  batching :: bool
  queue :: "'s list"

definition notify :: "('s, 'w) Store \<Rightarrow> 's \<Rightarrow> 'w \<Rightarrow> 'w" where
  "notify st previous w = fold (\<lambda>listener. listener (state st) previous) (listeners st) w"

definition flush :: "('s, 'w) Store \<times> 'w \<Rightarrow> ('s, 'w) Store \<times> 'w" where
  "flush = (\<lambda>(st, w).
     if batching st then (st, w)
     else (st\<lparr>queue := []\<rparr>, fold (notify st) (queue st) w))"

definition candidate :: "('s, 'w) Store \<Rightarrow> ('s \<Rightarrow> 's) \<Rightarrow> 's" where
  "candidate st updater =
     (case (case options st of None \<Rightarrow> None | Some opts \<Rightarrow> updateFn opts) of
        Some f \<Rightarrow> f (state st) updater
      | None \<Rightarrow> updater (state st))"

definition run_onUpdate :: "('s, 'w) Store \<Rightarrow> 's \<Rightarrow> 's \<Rightarrow> 'w \<Rightarrow> 'w" where
  "run_onUpdate st next previous w =
     (case (case options st of None \<Rightarrow> None | Some opts \<Rightarrow> onUpdate opts) of
        Some hook \<Rightarrow> hook next previous w
      | None \<Rightarrow> w)"

definition setState :: "('s \<Rightarrow> 's) \<Rightarrow> ('s, 'w) Store \<times> 'w \<Rightarrow> ('s, 'w) Store \<times> 'w" where
  "setState updater = (\<lambda>(st, w).
     let previous = state st;
         st1 = st\<lparr>state := candidate st updater\<rparr>
     in if state st1 = previous then (st1, w)
        else flush (st1\<lparr>queue := queue st1 @ [previous]\<rparr>,
                    run_onUpdate st1 (state st1) previous w))"

definition batch ::
  "(('s, 'w) Store \<times> 'w \<Rightarrow> ('s, 'w) Store \<times> 'w) \<Rightarrow> ('s, 'w) Store \<times> 'w \<Rightarrow> ('s, 'w) Store \<times> 'w"
where
  "batch cb = (\<lambda>(st, w).
     let (st1, w1) = cb (st\<lparr>batching := True\<rparr>, w)
     in flush (st1\<lparr>batching := False\<rparr>, w1))"

text \<open>A listener that records its arguments in a world that is a log.\<close>

definition recorder :: "('s, ('s \<times> 's) list) Listener" where
  "recorder next previous w = w @ [(next, previous)]"

text \<open>A batch callback that performs the given \<open>setState\<close> calls in order.\<close>

definition setStates :: "('s \<Rightarrow> 's) list \<Rightarrow> ('s, 'w) Store \<times> 'w \<Rightarrow> ('s, 'w) Store \<times> 'w" where
  "setStates us = fold setState us"

text \<open>A counter store with one recording listener, for concrete runs.\<close>

definition inc :: "nat \<Rightarrow> nat" where
  "inc n = Suc n"

definition store0 :: "(nat, (nat \<times> nat) list) Store" where
  "store0 = \<lparr>listeners = [recorder], state = 0, options = None, batching = False, queue = []\<rparr>"

section \<open>Locations (parseLocation)\<close>

text \<open>
  \<^verbatim>\<open>String.prototype.indexOf\<close> with a one-character needle, and
  \<^verbatim>\<open>String.prototype.substring\<close>: both arguments are clamped to \<open>[0, length]\<close> and
  swapped when the first is the larger. The field \<^verbatim>\<open>state\<close> of a location is
  \<open>loc_state\<close>.
\<close>

definition indexOf :: "string \<Rightarrow> char \<Rightarrow> int" where
  "indexOf s c = (if c \<in> set s then int (length (takeWhile (\<lambda>x. x \<noteq> c) s)) else - 1)"

definition substring :: "string \<Rightarrow> int \<Rightarrow> int \<Rightarrow> string" where
  "substring s a b =
     (let n = int (length s);
          a' = min (max a 0) n;
          b' = min (max b 0) n;
          lo = min a' b';
          hi = max a' b'
      in take (nat (hi - lo)) (drop (nat lo) s))"

definition substring_from :: "string \<Rightarrow> int \<Rightarrow> string" where
  "substring_from s a = substring s a (int (length s))"

record 'st RouterLocation =
  href :: string
  pathname :: string
  search :: string
  loc_state :: 'st

definition parseLocation :: "string \<Rightarrow> 'st \<Rightarrow> 'st RouterLocation" where
  "parseLocation h st =
     (let searchIndex = indexOf h CHR ''?''
      in \<lparr>href = h,
          pathname = substring h 0 searchIndex,
          search = (if searchIndex > - 1 then substring_from h searchIndex else ''''),
          loc_state = st\<rparr>)"

section \<open>Navigation orchestrator (class Router): the store and load\<close>

text \<open>
  The router's store holds an object \<^verbatim>\<open>{latestLocation, currentLocation}\<close>. Every
  updater of the source builds a new object with a spread, so the store's state is a
  pair of a reference and the fields, and an update takes the next free reference.
  The world of the router's store holds \<^verbatim>\<open>this.state\<close> (written by the store's
  \<^verbatim>\<open>onUpdate\<close> hook), the allocator, and whatever the subscribers act on.
\<close>

record 'l RouterStore =
  latestLocation :: 'l
  currentLocation :: 'l

type_synonym 'l RouterState = "nat \<times> 'l RouterStore"

record ('l, 'x) RouterWorld =
  this_state :: "'l RouterState"
  next_ref :: nat
  subscribers :: 'x

definition router_options :: "('l RouterState, ('l, 'x) RouterWorld) StoreOptions" where
  "router_options = \<lparr>updateFn = None, onUpdate = Some (\<lambda>n previous w. w\<lparr>this_state := n\<rparr>)\<rparr>"

definition spread_setState ::
  "('l RouterStore \<Rightarrow> 'l RouterStore) \<Rightarrow>
   ('l RouterState, ('l, 'x) RouterWorld) Store \<times> ('l, 'x) RouterWorld \<Rightarrow>
   ('l RouterState, ('l, 'x) RouterWorld) Store \<times> ('l, 'x) RouterWorld" where
  "spread_setState f = (\<lambda>(st, w).
     setState (\<lambda>n. (next_ref w, f (snd n))) (st, w\<lparr>next_ref := Suc (next_ref w)\<rparr>))"

definition load ::
  "'l option \<Rightarrow>
   ('l RouterState, ('l, 'x) RouterWorld) Store \<times> ('l, 'x) RouterWorld \<Rightarrow>
   ('l RouterState, ('l, 'x) RouterWorld) Store \<times> ('l, 'x) RouterWorld" where
  "load t_next = (\<lambda>sw.
     let (st1, w1) =
           batch (\<lambda>sw'. case t_next of
                    None \<Rightarrow> sw'
                  | Some nx \<Rightarrow> spread_setState (\<lambda>n. n\<lparr>latestLocation := nx\<rparr>) sw') sw
     in spread_setState (\<lambda>n. n\<lparr>currentLocation := latestLocation (snd (this_state w1))\<rparr>) (st1, w1))"

text \<open>A subscriber that records what it is called with, and a router at location \<^verbatim>\<open>/a\<close>.\<close>

definition subscriber ::
  "('l RouterState, ('l, ('l RouterState \<times> 'l RouterState) list) RouterWorld) Listener" where
  "subscriber next previous w = w\<lparr>subscribers := subscribers w @ [(next, previous)]\<rparr>"

definition router0 :: "(string RouterState, (string, (string RouterState \<times> string RouterState) list) RouterWorld) Store \<times> (string, (string RouterState \<times> string RouterState) list) RouterWorld" where
  "router0 =
    (\<lparr>listeners = [subscriber],
      state = (0, \<lparr>latestLocation = ''/a'', currentLocation = ''/a''\<rparr>),
      options = Some router_options, batching = False, queue = []\<rparr>,
     \<lparr>this_state = (0, \<lparr>latestLocation = ''/a'', currentLocation = ''/a''\<rparr>),
      next_ref = 1, subscribers = []\<rparr>)"

section \<open>History queue (createHistory)\<close>

text \<open>
  The host adapter \<^verbatim>\<open>opts\<close> acts on the world; a mutating call of the adapter may
  throw. \<^verbatim>\<open>opts.listener(onUpdate)\<close> attaches the host's change listener and returns
  the function that detaches it (\<open>unlistener\<close>). The closures of the source's queue are
  kept as the adapter call they make. A registered listener is a callback with its
  identity (the \<^verbatim>\<open>Set\<close> holds each callback once). The variables of the closure
  (\<^verbatim>\<open>currentLocation\<close>, \<^verbatim>\<open>unsub\<close>, \<^verbatim>\<open>listeners\<close>, \<^verbatim>\<open>queue\<close>) are the fields of the
  record \<open>History\<close>; they, \<^verbatim>\<open>onUpdate\<close> and the operations \<^verbatim>\<open>go\<close>, \<^verbatim>\<open>back\<close> and
  \<^verbatim>\<open>forward\<close> carry the prefix \<open>h_\<close>, and the adapter's \<^verbatim>\<open>go\<close>, \<^verbatim>\<open>back\<close> and
  \<^verbatim>\<open>forward\<close> the prefix \<open>host_\<close>.
\<close>

datatype 'st task =
    PushState string 'st
  | ReplaceState string 'st
  | Go int
  | Back
  | Forward

record ('loc, 'st, 'e, 'w) HistoryOpts =
  getLocation :: "'w \<Rightarrow> 'loc"
  listener :: "'w \<Rightarrow> 'w"
  unlistener :: "'w \<Rightarrow> 'w"
  pushState :: "string \<Rightarrow> 'st \<Rightarrow> 'w \<Rightarrow> 'e option \<times> 'w"
  replaceState :: "string \<Rightarrow> 'st \<Rightarrow> 'w \<Rightarrow> 'e option \<times> 'w"
  host_go :: "int \<Rightarrow> 'w \<Rightarrow> 'e option \<times> 'w"
  host_back :: "'w \<Rightarrow> 'e option \<times> 'w"
  host_forward :: "'w \<Rightarrow> 'e option \<times> 'w"
  createHref :: "string \<Rightarrow> string"

record ('loc, 'st, 'w) History =
  h_currentLocation :: 'loc
  h_unsub :: "'w \<Rightarrow> 'w"
  h_listeners :: "(nat \<times> ('w \<Rightarrow> 'w)) list"
  h_queue :: "'st task list"

definition createHistory ::
  "('loc, 'st, 'e, 'w) HistoryOpts \<Rightarrow> 'w \<Rightarrow> ('loc, 'st, 'w) History" where
  "createHistory opts w =
     \<lparr>h_currentLocation = getLocation opts w, h_unsub = (\<lambda>w. w), h_listeners = [], h_queue = []\<rparr>"

definition run_task :: "('loc, 'st, 'e, 'w) HistoryOpts \<Rightarrow> 'st task \<Rightarrow> 'w \<Rightarrow> 'e option \<times> 'w" where
  "run_task opts t w =
     (case t of
        PushState path st \<Rightarrow> pushState opts path st w
      | ReplaceState path st \<Rightarrow> replaceState opts path st w
      | Go index \<Rightarrow> host_go opts index w
      | Back \<Rightarrow> host_back opts w
      | Forward \<Rightarrow> host_forward opts w)"

definition notify_all :: "('loc, 'st, 'w) History \<Rightarrow> 'w \<Rightarrow> 'w" where
  "notify_all h w = fold (\<lambda>(i, listener). listener) (h_listeners h) w"

definition h_onUpdate ::
  "('loc, 'st, 'e, 'w) HistoryOpts \<Rightarrow> ('loc, 'st, 'w) History \<times> 'w \<Rightarrow> ('loc, 'st, 'w) History \<times> 'w" where
  "h_onUpdate opts = (\<lambda>(h, w).
     (h\<lparr>h_currentLocation := getLocation opts w\<rparr>,
      notify_all h w))"

fun drain ::
  "('loc, 'st, 'e, 'w) HistoryOpts \<Rightarrow> 'st task list \<Rightarrow> 'w \<Rightarrow> 'e option \<times> 'st task list \<times> 'w" where
  "drain opts [] w = (None, [], w)"
| "drain opts (t # q) w =
     (case run_task opts t w of
        (Some e, w') \<Rightarrow> (Some e, q, w')
      | (None, w') \<Rightarrow> drain opts q w')"

definition tryFlush ::
  "('loc, 'st, 'e, 'w) HistoryOpts \<Rightarrow> ('loc, 'st, 'w) History \<times> 'w \<Rightarrow>
     'e option \<times> ('loc, 'st, 'w) History \<times> 'w" where
  "tryFlush opts = (\<lambda>(h, w).
     case drain opts (h_queue h) w of
       (Some e, q, w') \<Rightarrow> (Some e, h\<lparr>h_queue := q\<rparr>, w')
     | (None, q, w') \<Rightarrow> (None, h_onUpdate opts (h\<lparr>h_queue := q\<rparr>, w')))"

definition queueTask ::
  "('loc, 'st, 'e, 'w) HistoryOpts \<Rightarrow> 'st task \<Rightarrow> ('loc, 'st, 'w) History \<times> 'w \<Rightarrow>
     'e option \<times> ('loc, 'st, 'w) History \<times> 'w" where
  "queueTask opts t = (\<lambda>(h, w). tryFlush opts (h\<lparr>h_queue := h_queue h @ [t]\<rparr>, w))"

definition push ::
  "('loc, 'st, 'e, 'w) HistoryOpts \<Rightarrow> string \<Rightarrow> 'st \<Rightarrow> ('loc, 'st, 'w) History \<times> 'w \<Rightarrow> 'e option \<times> ('loc, 'st, 'w) History \<times> 'w" where
  "push opts path st = queueTask opts (PushState path st)"

definition replace ::
  "('loc, 'st, 'e, 'w) HistoryOpts \<Rightarrow> string \<Rightarrow> 'st \<Rightarrow> ('loc, 'st, 'w) History \<times> 'w \<Rightarrow> 'e option \<times> ('loc, 'st, 'w) History \<times> 'w" where
  "replace opts path st = queueTask opts (ReplaceState path st)"

definition h_go ::
  "('loc, 'st, 'e, 'w) HistoryOpts \<Rightarrow> int \<Rightarrow> ('loc, 'st, 'w) History \<times> 'w \<Rightarrow> 'e option \<times> ('loc, 'st, 'w) History \<times> 'w" where
  "h_go opts index = queueTask opts (Go index)"

definition h_back ::
  "('loc, 'st, 'e, 'w) HistoryOpts \<Rightarrow> ('loc, 'st, 'w) History \<times> 'w \<Rightarrow> 'e option \<times> ('loc, 'st, 'w) History \<times> 'w" where
  "h_back opts = queueTask opts Back"

definition h_forward ::
  "('loc, 'st, 'e, 'w) HistoryOpts \<Rightarrow> ('loc, 'st, 'w) History \<times> 'w \<Rightarrow> 'e option \<times> ('loc, 'st, 'w) History \<times> 'w" where
  "h_forward opts = queueTask opts Forward"

definition listen ::
  "('loc, 'st, 'e, 'w) HistoryOpts \<Rightarrow> nat \<times> ('w \<Rightarrow> 'w) \<Rightarrow> ('loc, 'st, 'w) History \<times> 'w \<Rightarrow>
     ('loc, 'st, 'w) History \<times> 'w" where
  "listen opts cb = (\<lambda>(h, w).
     let (h1, w1) = (if h_listeners h = [] then (h\<lparr>h_unsub := unlistener opts\<rparr>, listener opts w)
                     else (h, w))
     in (h1\<lparr>h_listeners :=
              (if fst cb \<in> fst ` set (h_listeners h1) then h_listeners h1
               else h_listeners h1 @ [cb])\<rparr>, w1))"

definition unlisten ::
  "nat \<Rightarrow> ('loc, 'st, 'w) History \<times> 'w \<Rightarrow> ('loc, 'st, 'w) History \<times> 'w" where
  "unlisten i = (\<lambda>(h, w).
     let h1 = h\<lparr>h_listeners := filter (\<lambda>(j, l). j \<noteq> i) (h_listeners h)\<rparr>
     in (h1, if h_listeners h1 = [] then h_unsub h1 w else w))"

text \<open>Two statements in sequence: an exception of the first skips the second.\<close>

definition and_then ::
  "'e option \<times> 'a \<Rightarrow> ('a \<Rightarrow> 'e option \<times> 'a) \<Rightarrow> 'e option \<times> 'a" where
  "and_then r f = (case r of (Some e, a) \<Rightarrow> (Some e, a) | (None, a) \<Rightarrow> f a)"

text \<open>
  The callers of a history: any sequence of calls of its operations (an exception is
  caught by the caller), of change events of the host, and of changes of the world
  from outside. \<open>client\<close> runs such a sequence on a new history.
\<close>

datatype ('st, 'w) call =
    CallPush string 'st
  | CallReplace string 'st
  | CallGo int
  | CallBack
  | CallForward
  | CallListen nat "'w \<Rightarrow> 'w"
  | CallUnlisten nat
  | HostEvent
  | Outside "'w \<Rightarrow> 'w"

definition do_call ::
  "('loc, 'st, 'e, 'w) HistoryOpts \<Rightarrow> ('st, 'w) call \<Rightarrow> ('loc, 'st, 'w) History \<times> 'w \<Rightarrow>
     ('loc, 'st, 'w) History \<times> 'w" where
  "do_call opts c hw =
     (case c of
        CallPush path st \<Rightarrow> snd (push opts path st hw)
      | CallReplace path st \<Rightarrow> snd (replace opts path st hw)
      | CallGo index \<Rightarrow> snd (h_go opts index hw)
      | CallBack \<Rightarrow> snd (h_back opts hw)
      | CallForward \<Rightarrow> snd (h_forward opts hw)
      | CallListen i cb \<Rightarrow> listen opts (i, cb) hw
      | CallUnlisten i \<Rightarrow> unlisten i hw
      | HostEvent \<Rightarrow> h_onUpdate opts hw
      | Outside f \<Rightarrow> (fst hw, f (snd hw)))"

definition client ::
  "('loc, 'st, 'e, 'w) HistoryOpts \<Rightarrow> ('st, 'w) call list \<Rightarrow> 'w \<Rightarrow> ('loc, 'st, 'w) History \<times> 'w" where
  "client opts cs w0 = fold (do_call opts) cs (createHistory opts w0, w0)"

text \<open>
  A host that records the calls it receives in a log and refuses an empty path, and a
  listener that records its invocation in the same log.
\<close>

datatype event = HostPush string | HostReplace string | HostOther | Notified nat

definition log_opts :: "(nat, unit, string, event list) HistoryOpts" where
  "log_opts = \<lparr>getLocation = length, listener = (\<lambda>w. w), unlistener = (\<lambda>w. w),
     pushState = (\<lambda>path st w. if path = [] then (Some ''SecurityError'', w)
                                else (None, w @ [HostPush path])),
     replaceState = (\<lambda>path st w. if path = [] then (Some ''SecurityError'', w)
                                else (None, w @ [HostReplace path])),
     host_go = (\<lambda>n w. (None, w @ [HostOther])),
     host_back = (\<lambda>w. (None, w @ [HostOther])),
     host_forward = (\<lambda>w. (None, w @ [HostOther])),
     createHref = (\<lambda>p. p)\<rparr>"

definition log_listener :: "nat \<Rightarrow> event list \<Rightarrow> event list" where
  "log_listener i w = w @ [Notified i]"

section \<open>Structural merge (functions d, R, T)\<close>

text \<open>
  The names of the members of \<^verbatim>\<open>Object.prototype\<close>, which every object with that
  prototype inherits.
\<close>

definition object_prototype_keys :: "string list" where
  "object_prototype_keys =
     [''constructor'', ''__defineGetter__'', ''__defineSetter__'', ''hasOwnProperty'',
      ''__lookupGetter__'', ''__lookupSetter__'', ''isPrototypeOf'', ''propertyIsEnumerable'',
      ''toString'', ''valueOf'', ''__proto__'', ''toLocaleString'']"

text \<open>
  The merge works on data: primitives, arrays, and objects that are records of data.
  A key of an object of the model is a property name that is not the name of a
  member of \<^verbatim>\<open>Object.prototype\<close> (the type \<open>okey\<close>). For such a key \<^verbatim>\<open>u\<close>, reading
  \<^verbatim>\<open>e[u]\<close> finds an own property or nothing, and the assignment \<^verbatim>\<open>c[u] = v\<close> to a new
  object creates an own property that reads back as \<^verbatim>\<open>v\<close>; and no object of the model
  has an own property \<^verbatim>\<open>constructor\<close>, so \<^verbatim>\<open>e.constructor\<close> is the inherited one. An
  object with an own property named \<^verbatim>\<open>constructor\<close>, \<^verbatim>\<open>__proto__\<close>, \<^verbatim>\<open>toString\<close> and so on
  is outside the model: on those the source reads inherited members, and writes
  \<^verbatim>\<open>__proto__\<close> through the setter of the prototype. \<open>key s\<close> is the key named \<open>s\<close>;
  the twelve member names are not keys, and \<open>key\<close> sends them to the empty name.
\<close>

typedef okey = "{k :: string. k \<notin> set object_prototype_keys}"
  morphisms key_name Abs_okey
  by (rule exI [of _ "[]"]) (simp add: object_prototype_keys_def)

setup_lifting type_definition_okey

lift_definition key :: "string \<Rightarrow> okey" is
  "\<lambda>s. if s \<in> set object_prototype_keys then [] else s"
  by (simp add: object_prototype_keys_def)

instantiation okey :: equal
begin

lift_definition equal_okey :: "okey \<Rightarrow> okey \<Rightarrow> bool" is "(=)" .

instance
  by standard (transfer, simp)

end

text \<open>
  The merge compares and returns references, so a value carries its identity: an
  array or an object is tagged with its address, and \<open>seq\<close> is \<^verbatim>\<open>===\<close> (by value
  on primitives, where \<^verbatim>\<open>NaN\<close> differs from itself; by address on arrays and
  objects). The \<open>kind\<close> of an object is its prototype, which is what \<^verbatim>\<open>T\<close> and \<^verbatim>\<open>R\<close>
  look at through the string tag and through \<^verbatim>\<open>e.constructor\<close>: \<open>Plain\<close> has the
  prototype \<^verbatim>\<open>Object.prototype\<close> (its constructor is \<^verbatim>\<open>Object\<close>, whose prototype owns
  \<^verbatim>\<open>isPrototypeOf\<close>); \<open>NullProto\<close> has no prototype (its constructor is
  \<^verbatim>\<open>undefined\<close>); \<open>Instance\<close> is an instance of a class (its string tag is
  \<^verbatim>\<open>[object Object]\<close>, its constructor is the class, whose prototype does not own
  \<^verbatim>\<open>isPrototypeOf\<close>); \<open>Exotic\<close> has another string tag (a date, a map, a function).
  The fields of an object are its own enumerable properties in the order of
  \<^verbatim>\<open>Object.keys\<close>; \<open>get_prop\<close> is \<^verbatim>\<open>e[u]\<close> on the fields of \<^verbatim>\<open>e\<close>, for an object
  with the prototype \<^verbatim>\<open>Object.prototype\<close> or none (the only objects whose properties
  the merge reads). Numbers are integers or \<^verbatim>\<open>NaN\<close>.
\<close>

datatype prim = PUndefined | PNull | PBool bool | PNum int | PNaN | PStr string

datatype kind = Plain | NullProto | Instance | Exotic

datatype jv =
    Prim prim
  | ArrayV nat "jv list"
  | ObjectV nat kind "(okey \<times> jv) list"

fun seq :: "jv \<Rightarrow> jv \<Rightarrow> bool" where
  "seq (Prim p) (Prim q) = (p = q \<and> p \<noteq> PNaN)"
| "seq (ArrayV a es) (ArrayV b rs) = (a = b)"
| "seq (ObjectV a k efs) (ObjectV b k' rfs) = (a = b)"
| "seq e t = False"

fun T :: "jv \<Rightarrow> bool" where
  "T (ObjectV a k fs) = (k \<noteq> Exotic)"
| "T e = False"

fun R :: "jv \<Rightarrow> bool" where
  "R (ObjectV a k fs) =
     (if \<not> T (ObjectV a k fs) then False
      else if k = NullProto then True
      else k = Plain)"
| "R e = False"

definition get_prop :: "(okey \<times> jv) list \<Rightarrow> okey \<Rightarrow> jv" where
  "get_prop fs u = (case map_of fs u of None \<Rightarrow> Prim PUndefined | Some v \<Rightarrow> v)"

text \<open>
  \<open>d e t fresh\<close> is \<^verbatim>\<open>d(e, t)\<close> on a heap whose next free address is \<open>fresh\<close>; it
  returns the result and the next free address. \<^verbatim>\<open>Array.isArray\<close> holds of the
  \<open>ArrayV\<close> values only and \<open>R\<close> is false on them, so the source's test
  \<^verbatim>\<open>n || (R(e) && R(r))\<close> is the two cases below. The container \<^verbatim>\<open>c\<close> is allocated
  before the loop; \<open>d_elems\<close> and \<open>d_props\<close> are the loop over the indices and over
  the keys of \<^verbatim>\<open>r\<close>, returning \<^verbatim>\<open>c\<close>'s entries, the counter \<^verbatim>\<open>h\<close> and the next
  free address. In the loop, \<open>c0\<close> is the value assigned to \<^verbatim>\<open>c[u]\<close>; \<^verbatim>\<open>c\<close> is a new
  array or a new object and \<^verbatim>\<open>u\<close> an index or a key, so \<^verbatim>\<open>c[u]\<close> reads back as \<open>c0\<close>
  in the test \<^verbatim>\<open>c[u] === e[u]\<close>.
\<close>

fun d :: "jv \<Rightarrow> jv \<Rightarrow> nat \<Rightarrow> jv \<times> nat"
  and d_elems :: "jv list \<Rightarrow> jv list \<Rightarrow> nat \<Rightarrow> jv list \<times> nat \<times> nat"
  and d_props :: "(okey \<times> jv) list \<Rightarrow> (okey \<times> jv) list \<Rightarrow> nat \<Rightarrow> (okey \<times> jv) list \<times> nat \<times> nat"
where
  "d e t fresh =
     (if seq e t then (e, fresh)
      else case (e, t) of
        (ArrayV a es, ArrayV b rs) \<Rightarrow>
          (let (c, h, fresh') = d_elems es rs (Suc fresh)
           in (if length es = length rs \<and> h = length es then e else ArrayV fresh c, fresh'))
      | (ObjectV a k efs, ObjectV b k' rfs) \<Rightarrow>
          (if R e \<and> R t then
             (let (c, h, fresh') = d_props efs rfs (Suc fresh)
              in (if length efs = length rfs \<and> h = length efs then e else ObjectV fresh Plain c, fresh'))
           else (t, fresh))
      | _ \<Rightarrow> (t, fresh))"
| "d_elems es [] fresh = ([], 0, fresh)"
| "d_elems es (r # rs) fresh =
     (let e0 = (case es of [] \<Rightarrow> Prim PUndefined | x # xs \<Rightarrow> x);
          (c0, fresh1) = d e0 r fresh;
          (c, h, fresh2) = d_elems (tl es) rs fresh1
      in (c0 # c, (if seq c0 e0 then Suc h else h), fresh2))"
| "d_props efs [] fresh = ([], 0, fresh)"
| "d_props efs ((u, r) # rfs) fresh =
     (let e0 = get_prop efs u;
          (c0, fresh1) = d e0 r fresh;
          (c, h, fresh2) = d_props efs rfs fresh1
      in ((u, c0) # c, (if seq c0 e0 then Suc h else h), fresh2))"

text \<open>
  Structural equality as the claim words it (a second definition, from the spec): the
  same primitive, arrays of the same length with structurally equal elements, objects
  with the same keys and structurally equal entries under each key. Addresses and
  kinds are not compared. \<open>plain_data\<close> holds of the values built from primitives
  other than \<^verbatim>\<open>NaN\<close>, arrays and objects on which \<^verbatim>\<open>R\<close> is true (an object has each
  key once, and no key is the name of a member of \<^verbatim>\<open>Object.prototype\<close>, which the
  type of the keys already says).
\<close>

fun struct_eq :: "jv \<Rightarrow> jv \<Rightarrow> bool" where
  "struct_eq (Prim p) (Prim q) = (p = q)"
| "struct_eq (ArrayV a es) (ArrayV b rs) = list_all2 struct_eq es rs"
| "struct_eq (ObjectV a k efs) (ObjectV b k' rfs) =
     (set (map fst efs) = set (map fst rfs) \<and>
      (\<forall>(u, r) \<in> set rfs. struct_eq (get_prop efs u) r))"
| "struct_eq e t = False"

fun plain_data :: "jv \<Rightarrow> bool" where
  "plain_data (Prim p) = (p \<noteq> PNaN)"
| "plain_data (ArrayV a es) = list_all plain_data es"
| "plain_data (ObjectV a k fs) =
     (R (ObjectV a k fs) \<and> distinct (map fst fs) \<and>
      list_all (\<lambda>(u, v). key_name u \<notin> set object_prototype_keys) fs \<and>
      list_all (\<lambda>(u, v). plain_data v) fs)"

text \<open>Two instances of one class with the same field, and two equal plain objects.\<close>

definition point1 :: jv where
  "point1 = ObjectV 1 Instance [(key ''x'', Prim (PNum 1))]"

definition point2 :: jv where
  "point2 = ObjectV 2 Instance [(key ''x'', Prim (PNum 1))]"

definition search1 :: jv where
  "search1 =
     ObjectV 1 Plain [(key ''page'', Prim (PNum 1)), (key ''tags'', ArrayV 2 [Prim (PStr ''a'')])]"

definition search2 :: jv where
  "search2 =
     ObjectV 3 Plain [(key ''tags'', ArrayV 4 [Prim (PStr ''a'')]), (key ''page'', Prim (PNum 1))]"

section \<open>Search codec: the URI component functions of the runtime\<close>

text \<open>
  \<^verbatim>\<open>encodeURIComponent\<close> and \<^verbatim>\<open>decodeURIComponent\<close> as ECMAScript defines them, on
  UTF-8 bytes: the first escapes every byte that is not an unreserved character as
  \<^verbatim>\<open>%XX\<close>; the second replaces every \<^verbatim>\<open>%XX\<close> by its byte and throws \<^verbatim>\<open>URIError\<close>
  when a \<^verbatim>\<open>%\<close> is not followed by two hexadecimal digits or when the escaped bytes
  from a leading byte on are not the UTF-8 encoding of a code point.
\<close>

datatype exn = URIError | OtherError string

definition unreserved :: "char \<Rightarrow> bool" where
  "unreserved c =
     (let n = (of_char c :: nat)
      in (65 \<le> n \<and> n \<le> 90) \<or> (97 \<le> n \<and> n \<le> 122) \<or> (48 \<le> n \<and> n \<le> 57) \<or>
         c \<in> set ''-_.!~*'()'')"

definition hex_digit :: "nat \<Rightarrow> char" where
  "hex_digit n = (if n < 10 then char_of (48 + n) else char_of (55 + n))"

definition hex_value :: "char \<Rightarrow> nat option" where
  "hex_value c =
     (let n = (of_char c :: nat)
      in if 48 \<le> n \<and> n \<le> 57 then Some (n - 48)
         else if 65 \<le> n \<and> n \<le> 70 then Some (n - 55)
         else if 97 \<le> n \<and> n \<le> 102 then Some (n - 87)
         else None)"

definition escape :: "char \<Rightarrow> string" where
  "escape c = [CHR ''%'', hex_digit (of_char c div 16), hex_digit (of_char c mod 16)]"

definition encodeURIComponent :: "string \<Rightarrow> string" where
  "encodeURIComponent s = concat (map (\<lambda>c. if unreserved c then [c] else escape c) s)"

fun octet :: "string \<Rightarrow> (nat \<times> string) option" where
  "octet (p # h # l # rest) =
     (if p = CHR ''%'' then
        (case (hex_value h, hex_value l) of
           (Some a, Some b) \<Rightarrow> Some (16 * a + b, rest)
         | _ \<Rightarrow> None)
      else None)"
| "octet s = None"

fun octets :: "nat \<Rightarrow> string \<Rightarrow> (nat list \<times> string) option" where
  "octets 0 s = Some ([], s)"
| "octets (Suc n) s =
     (case octet s of
        None \<Rightarrow> None
      | Some (b, rest) \<Rightarrow>
          (case octets n rest of
             None \<Rightarrow> None
           | Some (bs, rest') \<Rightarrow> Some (b # bs, rest')))"

definition sequence_length :: "nat \<Rightarrow> nat" where
  "sequence_length b =
     (if b < 128 then 1 else if b < 192 then 0 else if b < 224 then 2
      else if b < 240 then 3 else if b < 248 then 4 else 0)"

definition continuation :: "nat \<Rightarrow> bool" where
  "continuation b = (128 \<le> b \<and> b < 192)"

fun code_point :: "nat list \<Rightarrow> nat option" where
  "code_point [a] = (if a < 128 then Some a else None)"
| "code_point [a, b] =
     (if continuation b \<and> 192 \<le> a \<and> a < 224 \<and> 128 \<le> (a - 192) * 64 + (b - 128)
      then Some ((a - 192) * 64 + (b - 128)) else None)"
| "code_point [a, b, c] =
     (let v = (a - 224) * 4096 + (b - 128) * 64 + (c - 128)
      in if continuation b \<and> continuation c \<and> 224 \<le> a \<and> a < 240 \<and> 2048 \<le> v \<and>
            \<not> (55296 \<le> v \<and> v < 57344)
         then Some v else None)"
| "code_point [a, b, c, x] =
     (let v = (a - 240) * 262144 + (b - 128) * 4096 + (c - 128) * 64 + (x - 128)
      in if continuation b \<and> continuation c \<and> continuation x \<and> 240 \<le> a \<and> a < 248 \<and>
            65536 \<le> v \<and> v < 1114112
         then Some v else None)"
| "code_point bs = None"

text \<open>The two facts the termination of \<open>decodeURIComponent\<close> rests on.\<close>

lemma octet_shorter: "octet s = Some (b, rest) \<Longrightarrow> length rest < length s"
  by (induction s rule: octet.induct) (auto split: if_splits option.splits)

lemma octets_shorter: "octets n s = Some (bs, rest) \<Longrightarrow> length rest \<le> length s"
proof (induction n s arbitrary: bs rest rule: octets.induct)
  case (1 s)
  then show ?case by simp
next
  case (2 n s)
  then show ?case
    by (fastforce split: option.splits prod.splits dest: octet_shorter)
qed

function decodeURIComponent :: "string \<Rightarrow> exn + string" where
  "decodeURIComponent [] = Inr []"
| "decodeURIComponent (c # cs) =
     (if c \<noteq> CHR ''%'' then
        (case decodeURIComponent cs of Inl e \<Rightarrow> Inl e | Inr r \<Rightarrow> Inr (c # r))
      else
        (case octet (c # cs) of
           None \<Rightarrow> Inl URIError
         | Some (b, rest) \<Rightarrow>
             (case octets (sequence_length b - 1) rest of
                None \<Rightarrow> Inl URIError
              | Some (bs, rest') \<Rightarrow>
                  (if sequence_length b = 0 \<or> code_point (b # bs) = None then Inl URIError
                   else (case decodeURIComponent rest' of
                           Inl e \<Rightarrow> Inl e
                         | Inr r \<Rightarrow> Inr (map char_of (b # bs) @ r))))))"
  by pat_completeness auto
termination
proof (relation "measure length")
  show "wf (measure length)" by simp
next
  fix c :: char and cs
  show "(cs, c # cs) \<in> measure length" by simp
next
  fix c :: char and cs x2 x y x2a xa ya
  assume "octet (c # cs) = Some x2" "(x, y) = x2" "octets (sequence_length x - 1) y = Some x2a" "(xa, ya) = x2a"
  then have "length y < length (c # cs)" "length ya \<le> length y"
    using octet_shorter [of "c # cs" x y] octets_shorter [of "sequence_length x - 1" y xa ya] by auto
  then show "(ya, c # cs) \<in> measure length" by simp
qed

text \<open>The strings that are valid UTF-8: the JavaScript strings without lone surrogates.\<close>

fun well_formed :: "string \<Rightarrow> bool" where
  "well_formed [] = True"
| "well_formed (c # cs) =
     (let n = sequence_length (of_char c)
      in n \<noteq> 0 \<and> n - 1 \<le> length cs \<and>
         code_point (of_char c # map of_char (take (n - 1) cs)) \<noteq> None \<and>
         well_formed (drop (n - 1) cs))"

section \<open>Search codec (encode, toValue, decode, parseSearchWith, stringifySearchWith)\<close>

text \<open>
  A search value. Numbers are a type parameter: the runtime's conversions between
  strings and numbers are taken as the parameter \<open>rt\<close> of the codec (\<open>toNumber rt s\<close>
  is \<^verbatim>\<open>+s\<close> when that is finite, that is when \<^verbatim>\<open>+s * 0 === 0\<close>, and \<open>None\<close>
  otherwise; \<open>numberToString\<close> is \<^verbatim>\<open>String(n)\<close>). An object is the list of its own
  enumerable properties. \<open>SInherited k\<close> is the member \<open>k\<close> that every object inherits
  from \<^verbatim>\<open>Object.prototype\<close>: \<^verbatim>\<open>out[k]\<close> in \<^verbatim>\<open>decode\<close> finds it when \<open>out\<close> has no
  own property \<open>k\<close>. (For the key \<^verbatim>\<open>__proto__\<close> the assignment \<^verbatim>\<open>out[k] = ...\<close> of the
  source replaces the prototype of \<open>out\<close>; the model stores an own property, so it is
  exact for every other key.)
\<close>

datatype 'n sv =
    SUndefined
  | SNull
  | SBool bool
  | SNum 'n
  | SStr string
  | SArr "'n sv list"
  | SObj "(string \<times> 'n sv) list"
  | SInherited string

record 'n Runtime =
  toNumber :: "string \<Rightarrow> 'n option"
  numberToString :: "'n \<Rightarrow> string"

text \<open>\<^verbatim>\<open>Array.prototype.join\<close> and the conversion of a value to a string.\<close>

fun join :: "string \<Rightarrow> string list \<Rightarrow> string" where
  "join sep [] = []"
| "join sep [x] = x"
| "join sep (x # y # ys) = x @ sep @ join sep (y # ys)"

fun toString :: "'n Runtime \<Rightarrow> 'n sv \<Rightarrow> string" where
  "toString rt SUndefined = ''undefined''"
| "toString rt SNull = ''null''"
| "toString rt (SBool b) = (if b then ''true'' else ''false'')"
| "toString rt (SNum n) = numberToString rt n"
| "toString rt (SStr s) = s"
| "toString rt (SArr xs) =
     join '','' (map (\<lambda>x. if x = SUndefined \<or> x = SNull then [] else toString rt x) xs)"
| "toString rt (SObj fs) = ''[object Object]''"
| "toString rt (SInherited k) =
     (if k = ''__proto__'' then ''[object Object]'' else ''function '' @ k @ ''() { [native code] }'')"

definition encode_pair :: "'n Runtime \<Rightarrow> string \<Rightarrow> 'n sv \<Rightarrow> string \<Rightarrow> string" where
  "encode_pair rt k x str =
     (if str \<noteq> [] then str @ ''&'' else str) @
     encodeURIComponent k @ ''='' @ encodeURIComponent (toString rt x)"

definition encode_entry :: "'n Runtime \<Rightarrow> string \<times> 'n sv \<Rightarrow> string \<Rightarrow> string" where
  "encode_entry rt = (\<lambda>(k, tmp) str.
     if tmp \<noteq> SUndefined then
       (case tmp of
          SArr xs \<Rightarrow> fold (encode_pair rt k) xs str
        | _ \<Rightarrow> encode_pair rt k tmp str)
     else str)"

definition encode :: "'n Runtime \<Rightarrow> (string \<times> 'n sv) list \<Rightarrow> string option \<Rightarrow> string" where
  "encode rt obj pfx =
     (case pfx of None \<Rightarrow> [] | Some p \<Rightarrow> p) @ fold (encode_entry rt) obj []"

definition toValue :: "'n Runtime \<Rightarrow> string option \<Rightarrow> exn + 'n sv" where
  "toValue rt mix =
     (case mix of
        None \<Rightarrow> Inr (SStr [])
      | Some m \<Rightarrow>
          if m = [] then Inr (SStr [])
          else (case decodeURIComponent m of
                  Inl e \<Rightarrow> Inl e
                | Inr str \<Rightarrow>
                    Inr (if str = ''false'' then SBool False
                         else if str = ''true'' then SBool True
                         else if take 1 str = ''0'' then SStr str
                         else (case toNumber rt str of Some n \<Rightarrow> SNum n | None \<Rightarrow> SStr str))))"

text \<open>\<^verbatim>\<open>String.prototype.split\<close> with a separator of one character.\<close>

fun split_from :: "char \<Rightarrow> string \<Rightarrow> string \<Rightarrow> string list" where
  "split_from c piece [] = [piece]"
| "split_from c piece (x # xs) =
     (if x = c then piece # split_from c [] xs else split_from c (piece @ [x]) xs)"

definition js_split :: "char \<Rightarrow> string \<Rightarrow> string list" where
  "js_split c s = split_from c [] s"

text \<open>
  \<^verbatim>\<open>out[k]\<close>, \<^verbatim>\<open>out[k] = v\<close> and \<^verbatim>\<open>[].concat(a, b)\<close>. The loop of \<^verbatim>\<open>decode\<close> ends at the
  first empty piece (an empty string is falsy) or when the pieces are used up.
\<close>

definition get_member :: "(string \<times> 'n sv) list \<Rightarrow> string \<Rightarrow> 'n sv" where
  "get_member out k =
     (case map_of out k of
        Some v \<Rightarrow> v
      | None \<Rightarrow> if k \<in> set object_prototype_keys then SInherited k else SUndefined)"

fun set_member :: "(string \<times> 'n sv) list \<Rightarrow> string \<Rightarrow> 'n sv \<Rightarrow> (string \<times> 'n sv) list" where
  "set_member [] k v = [(k, v)]"
| "set_member ((k', v') # out) k v =
     (if k' = k then (k, v) # out else (k', v') # set_member out k v)"

definition concat2 :: "'n sv \<Rightarrow> 'n sv \<Rightarrow> 'n sv" where
  "concat2 a b =
     SArr ((case a of SArr xs \<Rightarrow> xs | _ \<Rightarrow> [a]) @ (case b of SArr ys \<Rightarrow> ys | _ \<Rightarrow> [b]))"

fun decode_loop ::
  "'n Runtime \<Rightarrow> string list \<Rightarrow> (string \<times> 'n sv) list \<Rightarrow> exn + (string \<times> 'n sv) list" where
  "decode_loop rt [] out = Inr out"
| "decode_loop rt (tmp # arr) out =
     (if tmp = [] then Inr out
      else
        (let parts = js_split CHR ''='' tmp;
             k = hd parts;
             mix = (case tl parts of [] \<Rightarrow> None | m # ms \<Rightarrow> Some m)
         in if get_member out k \<noteq> SUndefined then
              (case toValue rt mix of
                 Inl e \<Rightarrow> Inl e
               | Inr v \<Rightarrow> decode_loop rt arr (set_member out k (concat2 (get_member out k) v)))
            else
              (case toValue rt mix of
                 Inl e \<Rightarrow> Inl e
               | Inr v \<Rightarrow> decode_loop rt arr (set_member out k v))))"

definition decode :: "'n Runtime \<Rightarrow> string \<Rightarrow> exn + (string \<times> 'n sv) list" where
  "decode rt str = decode_loop rt (js_split CHR ''&'' str) []"

text \<open>
  \<^verbatim>\<open>parseSearchWith(parser)\<close>: \<open>parsed\<close> is the body of its loop, the \<^verbatim>\<open>try\<close> around
  \<^verbatim>\<open>query[key] = parser(value)\<close> for a string value. The call of \<^verbatim>\<open>decode\<close> is outside
  every \<^verbatim>\<open>try\<close>.
\<close>

definition parsed :: "(string \<Rightarrow> exn + 'n sv) \<Rightarrow> 'n sv \<Rightarrow> 'n sv" where
  "parsed parser val =
     (case val of
        SStr s \<Rightarrow> (case parser s of Inl err \<Rightarrow> val | Inr v \<Rightarrow> v)
      | _ \<Rightarrow> val)"

definition parseSearchWith ::
  "(string \<Rightarrow> exn + 'n sv) \<Rightarrow> 'n Runtime \<Rightarrow> string \<Rightarrow> exn + (string \<times> 'n sv) list" where
  "parseSearchWith parser rt searchStr =
     (let searchStr' = (if substring searchStr 0 1 = ''?'' then substring_from searchStr 1
                        else searchStr)
      in case decode rt searchStr' of
           Inl e \<Rightarrow> Inl e
         | Inr query \<Rightarrow> Inr (map (\<lambda>(key, val). (key, parsed parser val)) query))"

text \<open>
  \<^verbatim>\<open>stringifySearchWith(stringify)\<close>: a key whose value is \<^verbatim>\<open>undefined\<close> is deleted; a
  truthy value of type \<^verbatim>\<open>object\<close> (an array or an object) is replaced by its
  stringified text unless \<^verbatim>\<open>stringify\<close> throws.
\<close>

definition is_object :: "'n sv \<Rightarrow> bool" where
  "is_object v = (case v of SArr xs \<Rightarrow> True | SObj fs \<Rightarrow> True | _ \<Rightarrow> False)"

definition stringified :: "('n sv \<Rightarrow> exn + string) \<Rightarrow> 'n sv \<Rightarrow> 'n sv" where
  "stringified stringify val =
     (if is_object val then
        (case stringify val of Inl err \<Rightarrow> val | Inr s \<Rightarrow> SStr s)
      else val)"

definition stringifySearchWith ::
  "('n sv \<Rightarrow> exn + string) \<Rightarrow> 'n Runtime \<Rightarrow> (string \<times> 'n sv) list \<Rightarrow> string" where
  "stringifySearchWith stringify rt search' =
     (let search1 =
            map (\<lambda>(key, val). (key, stringified stringify val))
              (filter (\<lambda>(key, val). val \<noteq> SUndefined) search');
          searchStr = encode rt search1 None
      in if searchStr \<noteq> [] then ''?'' @ searchStr else [])"

subsection \<open>The search objects that the heuristics leave alone\<close>

text \<open>
  \<open>survives parser stringify rt v\<close>: the text that \<open>v\<close> is written as is valid
  UTF-8, is neither \<^verbatim>\<open>true\<close> nor \<^verbatim>\<open>false\<close> (unless \<open>v\<close> is that boolean), and is read
  back as \<open>v\<close>: a string is empty, starts with \<^verbatim>\<open>0\<close> or is not numeric, and the parser
  rejects it or returns it; the text of a number is converted back to the number, or
  starts with \<^verbatim>\<open>0\<close> and is parsed back to it; the text of \<^verbatim>\<open>null\<close>, of an array or
  of an object is not numeric and the parser returns the value for it. A key is
  \<open>key_ok\<close> when it has unreserved characters only (\<^verbatim>\<open>decode\<close> does not unescape
  keys) and is not the name of a member of \<^verbatim>\<open>Object.prototype\<close>. \<open>wire\<close> is the
  escaped text of a value and \<open>pair_text\<close> the text of an entry in the query string.
\<close>

fun survives ::
  "(string \<Rightarrow> exn + 'n sv) \<Rightarrow> ('n sv \<Rightarrow> exn + string) \<Rightarrow> 'n Runtime \<Rightarrow> 'n sv \<Rightarrow> bool" where
  "survives parser stringify rt (SBool b) = True"
| "survives parser stringify rt (SStr s) =
     (well_formed s \<and> s \<noteq> ''true'' \<and> s \<noteq> ''false'' \<and>
      (s = [] \<or> take 1 s = ''0'' \<or> toNumber rt s = None) \<and>
      (case parser s of Inl e \<Rightarrow> True | Inr v \<Rightarrow> v = SStr s))"
| "survives parser stringify rt (SNum n) =
     (let s = numberToString rt n
      in well_formed s \<and> s \<noteq> [] \<and> s \<noteq> ''true'' \<and> s \<noteq> ''false'' \<and>
         (if take 1 s = ''0'' then parser s = Inr (SNum n) else toNumber rt s = Some n))"
| "survives parser stringify rt SNull =
     (toNumber rt ''null'' = None \<and> parser ''null'' = Inr SNull)"
| "survives parser stringify rt SUndefined = False"
| "survives parser stringify rt (SInherited k) = False"
| "survives parser stringify rt v =
     (case stringify v of
        Inl e \<Rightarrow> False
      | Inr s \<Rightarrow>
          well_formed s \<and> s \<noteq> [] \<and> s \<noteq> ''true'' \<and> s \<noteq> ''false'' \<and>
          (take 1 s = ''0'' \<or> toNumber rt s = None) \<and> parser s = Inr v)"

definition key_ok :: "string \<Rightarrow> bool" where
  "key_ok k = (list_all unreserved k \<and> k \<notin> set object_prototype_keys)"

definition wire :: "('n sv \<Rightarrow> exn + string) \<Rightarrow> 'n Runtime \<Rightarrow> 'n sv \<Rightarrow> string" where
  "wire stringify rt v = encodeURIComponent (toString rt (stringified stringify v))"

definition pair_text :: "('n sv \<Rightarrow> exn + string) \<Rightarrow> 'n Runtime \<Rightarrow> string \<times> 'n sv \<Rightarrow> string" where
  "pair_text stringify rt = (\<lambda>(k, v). encodeURIComponent k @ ''='' @ wire stringify rt v)"

subsection \<open>A runtime and a parser for concrete runs\<close>

text \<open>
  The theorems about the codec hold for every runtime, parser and stringifier. To run
  the codec on concrete inputs, \<open>int_runtime\<close> has the integers as numbers and
  converts decimal integer literals (what \<^verbatim>\<open>String\<close> writes for an integer and
  \<^verbatim>\<open>+s\<close> reads back), and \<open>array_parser\<close> and \<open>array_stringify\<close> know the one text
  \<^verbatim>\<open>[1,2]\<close>, as \<^verbatim>\<open>JSON.parse\<close> and \<^verbatim>\<open>JSON.stringify\<close> read and write it, and
  throw on every other argument.
\<close>

fun digit_chars :: "nat \<Rightarrow> string" where
  "digit_chars n =
     (if n < 10 then [char_of (48 + n)]
      else digit_chars (n div 10) @ [char_of (48 + n mod 10)])"

declare digit_chars.simps [simp del]

fun digits_value :: "string \<Rightarrow> nat \<Rightarrow> nat option" where
  "digits_value [] acc = Some acc"
| "digits_value (c # cs) acc =
     (let n = (of_char c :: nat)
      in if 48 \<le> n \<and> n \<le> 57 then digits_value cs (10 * acc + (n - 48)) else None)"

definition decimal :: "string \<Rightarrow> int option" where
  "decimal s =
     (case s of
        [] \<Rightarrow> None
      | c # cs \<Rightarrow>
          if c = CHR ''-'' then (if cs = [] then None else map_option (\<lambda>n. - int n) (digits_value cs 0))
          else map_option int (digits_value s 0))"

definition int_runtime :: "int Runtime" where
  "int_runtime =
     \<lparr>toNumber = decimal,
      numberToString = (\<lambda>i. if i < 0 then CHR ''-'' # digit_chars (nat (- i)) else digit_chars (nat i))\<rparr>"

definition array_parser :: "string \<Rightarrow> exn + int sv" where
  "array_parser s = (if s = ''[1,2]'' then Inr (SArr [SNum 1, SNum 2]) else Inl (OtherError ''SyntaxError''))"

definition array_stringify :: "int sv \<Rightarrow> exn + string" where
  "array_stringify v = (if v = SArr [SNum 1, SNum 2] then Inr ''[1,2]'' else Inl (OtherError ''TypeError''))"

chapter \<open>Properties\<close>

section \<open>Properties of the reactive store\<close>

text \<open>
  Claim C6. When the updater's result is the current state itself, \<open>setState\<close> changes
  nothing: the store (its queue included: no notification task is enqueued) and the
  world (no listener and no \<open>onUpdate\<close> hook has acted on it) are returned as they were.
\<close>

theorem setState_same_reference_noop:
  "candidate st updater = state st \<Longrightarrow> setState updater (st, w) = (st, w)"
  by (simp add: setState_def)

theorem setState_same_reference_noop_witness:
  "candidate store0 (\<lambda>s. s) = state store0 \<and> setState (\<lambda>s. s) (store0, []) = (store0, [])"
proof -
  have c: "candidate store0 (\<lambda>s. s) = state store0"
    by (simp add: candidate_def store0_def)
  from setState_same_reference_noop [OF c] c show ?thesis by simp
qed

subsection \<open>setState while the store is batching\<close>

lemma setState_batching:
  "batching st \<Longrightarrow> setState u (st, w) =
     (if candidate st u = state st then (st, w)
      else (st\<lparr>state := candidate st u, queue := queue st @ [state st]\<rparr>,
            run_onUpdate st (candidate st u) (state st) w))"
  by (simp add: setState_def flush_def run_onUpdate_def Let_def)

lemma setState_batching_fields:
  assumes "batching st"
  shows "batching (fst (setState u (st, w)))"
    and "listeners (fst (setState u (st, w))) = listeners st"
    and "options (fst (setState u (st, w))) = options st"
    and "length (queue (fst (setState u (st, w)))) \<le> Suc (length (queue st))"
  using assms by (simp_all add: setState_batching)

lemma candidate_listeners [simp]: "candidate (st\<lparr>listeners := ls\<rparr>) u = candidate st u"
  by (simp add: candidate_def split: option.splits)

lemma run_onUpdate_listeners [simp]:
  "run_onUpdate (st\<lparr>listeners := ls\<rparr>) = run_onUpdate st"
  by (simp add: run_onUpdate_def fun_eq_iff)

lemma setState_batching_no_listeners:
  assumes "batching st"
  shows "setState u (st\<lparr>listeners := ls\<rparr>, w) =
           ((fst (setState u (st, w)))\<lparr>listeners := ls\<rparr>, snd (setState u (st, w)))"
  using assms by (simp add: setState_batching)

lemma setStates_batching:
  "batching st \<Longrightarrow>
     batching (fst (setStates us (st, w)))
   \<and> listeners (fst (setStates us (st, w))) = listeners st
   \<and> length (queue (fst (setStates us (st, w)))) \<le> length (queue st) + length us
   \<and> setStates us (st\<lparr>listeners := ls\<rparr>, w) =
        ((fst (setStates us (st, w)))\<lparr>listeners := ls\<rparr>, snd (setStates us (st, w)))"
proof (induction us arbitrary: st w)
  case Nil
  then show ?case by (simp add: setStates_def)
next
  case (Cons u us)
  obtain st1 w1 where s1: "setState u (st, w) = (st1, w1)" by (cases "setState u (st, w)")
  have b1: "batching st1" and l1: "listeners st1 = listeners st"
    and q1: "length (queue st1) \<le> Suc (length (queue st))"
    using setState_batching_fields [OF Cons.prems, of u w] s1 by simp_all
  have n1: "setState u (st\<lparr>listeners := ls\<rparr>, w) = (st1\<lparr>listeners := ls\<rparr>, w1)"
    using setState_batching_no_listeners [OF Cons.prems, of u ls w] s1 by simp
  from Cons.IH [OF b1, of w1] s1 n1 l1 q1 show ?case
    by (simp add: setStates_def)
qed

text \<open>
  Claim C7. A batch whose callback makes the \<open>setState\<close> calls \<open>us\<close>, on any store:
  when the callback has returned and the batch has not yet closed, the queue has grown
  by at most one task for each call, and the world is what it would be if the store
  had no listener at all (no notification has fired); closing the batch then runs
  every queued task, and each listener is called with the state the callback ended in
  as its \<open>next\<close> argument.
\<close>

theorem batch_notifies_final_state:
  "(let inside = setStates us (st\<lparr>batching := True\<rparr>, w)
    in length (queue (fst inside)) \<le> length (queue st) + length us
     \<and> snd inside = snd (setStates us (st\<lparr>batching := True, listeners := []\<rparr>, w))
     \<and> batch (setStates us) (st, w) =
         ((fst inside)\<lparr>batching := False, queue := []\<rparr>,
          fold (\<lambda>previous. fold (\<lambda>listener. listener (state (fst inside)) previous) (listeners st))
            (queue (fst inside)) (snd inside)))"
proof -
  obtain st1 w1 where i: "setStates us (st\<lparr>batching := True\<rparr>, w) = (st1, w1)"
    by (cases "setStates us (st\<lparr>batching := True\<rparr>, w)")
  have b: "batching (st\<lparr>batching := True\<rparr>)" by simp
  note f = setStates_batching [OF b, of us w "[]"]
  have n: "notify (st1\<lparr>batching := False\<rparr>) = (\<lambda>previous. fold (\<lambda>listener. listener (state st1) previous) (listeners st))"
    using f i by (auto simp add: notify_def fun_eq_iff)
  show ?thesis
    using f i n by (simp add: batch_def flush_def)
qed

subsection \<open>A batch inside a batch\<close>

lemma setState_idle:
  assumes "\<not> batching st" "queue st = []"
  shows "\<not> batching (fst (setState u (st, w))) \<and> queue (fst (setState u (st, w))) = []"
  using assms by (simp add: setState_def flush_def Let_def)

lemma setStates_idle:
  "\<not> batching st \<Longrightarrow> queue st = [] \<Longrightarrow>
     \<not> batching (fst (setStates us (st, w))) \<and> queue (fst (setStates us (st, w))) = []"
proof (induction us arbitrary: st w)
  case Nil
  then show ?case by (simp add: setStates_def)
next
  case (Cons u us)
  obtain st1 w1 where s1: "setState u (st, w) = (st1, w1)" by (cases "setState u (st, w)")
  with setState_idle [OF Cons.prems, of u w] have "\<not> batching st1" "queue st1 = []" by simp_all
  from Cons.IH [OF this, of w1] s1 show ?case by (simp add: setStates_def)
qed

lemma batch_idle:
  "\<not> batching (fst (batch cb sw)) \<and> queue (fst (batch cb sw)) = []"
  by (cases sw) (simp add: batch_def flush_def split: prod.splits)

lemma flush_idle: "\<not> batching st \<Longrightarrow> queue st = [] \<Longrightarrow> flush (st\<lparr>batching := False\<rparr>, w) = (st, w)"
  by (cases st) (simp add: flush_def)

text \<open>
  Claim C8, as the code has it. The flag is one latch: the inner batch clears it and
  flushes when it ends. An outer batch whose callback makes the calls \<open>us1\<close>, runs an
  inner batch of the calls \<open>us2\<close> and then makes the calls \<open>us3\<close> does what a batch
  of \<open>us1\<close> and \<open>us2\<close> followed by the unbatched calls \<open>us3\<close> does: everything
  enqueued up to the end of the inner batch is delivered there, and each later call
  notifies at once.
\<close>

theorem nested_batch_flushes_at_inner_end:
  "batch (\<lambda>sw. setStates us3 (batch (setStates us2) (setStates us1 sw))) (st, w) =
     setStates us3 (batch (setStates (us1 @ us2)) (st, w))"
proof -
  obtain st1 w1 where x: "setStates us1 (st\<lparr>batching := True\<rparr>, w) = (st1, w1)"
    by (cases "setStates us1 (st\<lparr>batching := True\<rparr>, w)")
  have "batching (st\<lparr>batching := True\<rparr>)" by simp
  from setStates_batching [OF this, of us1 w] x have b1: "batching st1" by simp
  then have same: "st1\<lparr>batching := True\<rparr> = st1" by (cases st1) simp
  have inner: "batch (setStates us2) (st1, w1) = batch (setStates (us1 @ us2)) (st, w)"
    using x same by (simp add: batch_def setStates_def)
  obtain st2 w2 where y: "batch (setStates (us1 @ us2)) (st, w) = (st2, w2)"
    by (cases "batch (setStates (us1 @ us2)) (st, w)")
  from batch_idle [of "setStates (us1 @ us2)" "(st, w)"] y
  have i2: "\<not> batching st2" "queue st2 = []" by simp_all
  obtain st3 w3 where z: "setStates us3 (st2, w2) = (st3, w3)"
    by (cases "setStates us3 (st2, w2)")
  from setStates_idle [OF i2, of us3 w2] z have i3: "\<not> batching st3" "queue st3 = []" by simp_all
  have "batch (\<lambda>sw. setStates us3 (batch (setStates us2) (setStates us1 sw))) (st, w) =
          flush (st3\<lparr>batching := False\<rparr>, w3)"
    using x inner y z by (simp add: batch_def)
  with flush_idle [OF i3] y z show ?thesis by simp
qed

text \<open>
  The claim as stated fails: three increments, the second in an inner batch. When the
  callback of the outer batch returns, the listener has already been called three
  times, twice with the intermediate state 2.
\<close>

theorem nested_batch_counterexample:
  "snd (setState inc (batch (setState inc) (setState inc (store0\<lparr>batching := True\<rparr>, [])))) =
     [(2, 0), (2, 1), (3, 2)]
   \<and> snd (batch (\<lambda>sw. setState inc (batch (setState inc) (setState inc sw))) (store0, [])) =
     [(2, 0), (2, 1), (3, 2)]"
  by (simp add: store0_def setState_def batch_def flush_def candidate_def run_onUpdate_def
      notify_def recorder_def inc_def)

section \<open>Properties of the router's load\<close>

text \<open>
  Claim C1 at a concrete input: a router at \<^verbatim>\<open>/a\<close> with one subscriber loads the
  location \<^verbatim>\<open>/b\<close>. The subscriber is called twice; the state it receives first has
  \<open>latestLocation\<close> \<^verbatim>\<open>/b\<close> and \<open>currentLocation\<close> still \<^verbatim>\<open>/a\<close>.
\<close>

theorem load_notifies_between_updates:
  "map fst (subscribers (snd (load (Some ''/b'') router0))) =
     [(1, \<lparr>latestLocation = ''/b'', currentLocation = ''/a''\<rparr>),
      (2, \<lparr>latestLocation = ''/b'', currentLocation = ''/b''\<rparr>)]"
  by (simp add: load_def router0_def spread_setState_def batch_def setState_def flush_def
      candidate_def run_onUpdate_def notify_def subscriber_def router_options_def)

section \<open>Properties of the history queue\<close>

lemma drain_empty_queue:
  "drain opts [t] w = (case run_task opts t w of (Some e, w') \<Rightarrow> (Some e, [], w') | (None, w') \<Rightarrow> (None, [], w'))"
  by (simp split: prod.splits option.splits)

lemma queueTask_empty:
  "h_queue h = [] \<Longrightarrow>
   queueTask opts t (h, w) =
     (case run_task opts t w of
        (Some e, w') \<Rightarrow> (Some e, h, w')
      | (None, w') \<Rightarrow> (None, h_onUpdate opts (h, w')))"
  by (cases h) (simp add: queueTask_def tryFlush_def split: prod.splits option.splits)

lemma queueTask_keeps_empty:
  "h_queue h = [] \<Longrightarrow> h_queue (fst (snd (queueTask opts t (h, w)))) = []"
  by (simp add: queueTask_empty h_onUpdate_def split: prod.splits option.splits)

lemma do_call_keeps_empty:
  "h_queue (fst hw) = [] \<Longrightarrow> h_queue (fst (do_call opts c hw)) = []"
  by (cases hw; cases c)
     (simp_all add: do_call_def push_def replace_def h_go_def h_back_def h_forward_def
        queueTask_keeps_empty listen_def unlisten_def h_onUpdate_def Let_def)

lemma fold_do_call_keeps_empty:
  "h_queue (fst hw) = [] \<Longrightarrow> h_queue (fst (fold (do_call opts) cs hw)) = []"
  by (induction cs arbitrary: hw) (simp_all add: do_call_keeps_empty)

lemma client_queue_empty: "h_queue (fst (client opts cs w0)) = []"
  by (simp add: client_def fold_do_call_keeps_empty createHistory_def)

text \<open>
  Claim C9. In every state a history can be in (after any sequence of calls), the
  queue is empty; a mutating call whose task throws returns that exception to its
  caller, notifies no listener, does not read the location again, and leaves the
  queue empty.
\<close>

theorem throwing_task_leaves_queue_empty:
  assumes "hw = client opts cs w0"
      and "run_task opts t (snd hw) = (Some e, w')"
    shows "queueTask opts t hw = (Some e, fst hw, w') \<and> h_queue (fst hw) = []"
proof -
  have q: "h_queue (fst hw) = []" using assms(1) by (simp add: client_queue_empty)
  obtain h w where hw: "hw = (h, w)" by (cases hw)
  with q assms(2) show ?thesis by (simp add: queueTask_empty)
qed

theorem throwing_task_leaves_queue_empty_witness:
  "run_task log_opts (PushState [] ()) (snd (client log_opts [CallListen 7 (log_listener 7), CallPush ''/A'' ()] [])) =
     (Some ''SecurityError'', [HostPush ''/A'', Notified 7])
   \<and> fst (queueTask log_opts (PushState [] ())
        (client log_opts [CallListen 7 (log_listener 7), CallPush ''/A'' ()] [])) = Some ''SecurityError''
   \<and> snd (snd (queueTask log_opts (PushState [] ())
        (client log_opts [CallListen 7 (log_listener 7), CallPush ''/A'' ()] []))) =
       [HostPush ''/A'', Notified 7]
   \<and> h_queue (fst (snd (queueTask log_opts (PushState [] ())
        (client log_opts [CallListen 7 (log_listener 7), CallPush ''/A'' ()] [])))) = []"
proof -
  let ?hw = "client log_opts [CallListen 7 (log_listener 7), CallPush ''/A'' ()] []"
  have w: "snd ?hw = [HostPush ''/A'', Notified 7]"
    by (simp add: client_def do_call_def listen_def createHistory_def push_def queueTask_def
        tryFlush_def h_onUpdate_def notify_all_def run_task_def log_opts_def log_listener_def)
  have t: "run_task log_opts (PushState [] ()) (snd ?hw) =
      (Some ''SecurityError'', [HostPush ''/A'', Notified 7])"
    by (simp only: w) (simp add: run_task_def log_opts_def)
  from throwing_task_leaves_queue_empty [OF refl t] t show ?thesis by simp
qed

text \<open>
  Claim C2, as the code has it. In any state of a history, \<open>push\<close> and then
  \<open>replace\<close>, neither throwing: the host sees \<open>pushState\<close> (the world becomes
  \<open>w1\<close>), then every listener is notified, then the host sees \<open>replaceState\<close> on the
  world the listeners left (it becomes \<open>w2\<close>), then the location is read and every
  listener is notified again.
\<close>

theorem push_then_replace_notifies_twice:
  assumes "hw = client opts cs w0"
      and "pushState opts a sa (snd hw) = (None, w1)"
      and "replaceState opts b sb (notify_all (fst hw) w1) = (None, w2)"
    shows "and_then (push opts a sa hw) (replace opts b sb) =
             (None, (fst hw)\<lparr>h_currentLocation := getLocation opts w2\<rparr>, notify_all (fst hw) w2)"
proof -
  have q: "h_queue (fst hw) = []" using assms(1) by (simp add: client_queue_empty)
  obtain h w where hw: "hw = (h, w)" by (cases hw)
  have p: "push opts a sa hw = (None, h\<lparr>h_currentLocation := getLocation opts w1\<rparr>, notify_all h w1)"
    using q hw assms(2) by (simp add: push_def queueTask_empty run_task_def h_onUpdate_def notify_all_def)
  have r: "replace opts b sb (h\<lparr>h_currentLocation := getLocation opts w1\<rparr>, notify_all h w1) =
      (None, h\<lparr>h_currentLocation := getLocation opts w2\<rparr>, notify_all h w2)"
    using q hw assms(3) by (simp add: replace_def queueTask_empty run_task_def h_onUpdate_def notify_all_def)
  show ?thesis using p r hw assms by (simp add: and_then_def)
qed

theorem push_then_replace_notifies_twice_witness:
  "pushState log_opts ''/A'' () (snd (client log_opts [CallListen 7 (log_listener 7)] [])) =
     (None, [HostPush ''/A''])
   \<and> replaceState log_opts ''/B'' ()
        (notify_all (fst (client log_opts [CallListen 7 (log_listener 7)] [])) [HostPush ''/A'']) =
     (None, [HostPush ''/A'', Notified 7, HostReplace ''/B''])
   \<and> snd (snd (and_then
          (push log_opts ''/A'' () (client log_opts [CallListen 7 (log_listener 7)] []))
          (replace log_opts ''/B'' ()))) =
       [HostPush ''/A'', Notified 7, HostReplace ''/B'', Notified 7]"
proof -
  let ?hw = "client log_opts [CallListen 7 (log_listener 7)] []"
  have hw: "?hw = (\<lparr>h_currentLocation = 0, h_unsub = (\<lambda>w. w),
       h_listeners = [(7, log_listener 7)], h_queue = []\<rparr>, [])"
    by (simp add: client_def do_call_def listen_def createHistory_def log_opts_def)
  have p: "pushState log_opts ''/A'' () (snd ?hw) = (None, [HostPush ''/A''])"
    by (simp add: hw) (simp add: log_opts_def)
  have r: "replaceState log_opts ''/B'' () (notify_all (fst ?hw) [HostPush ''/A'']) =
      (None, [HostPush ''/A'', Notified 7, HostReplace ''/B''])"
    by (simp add: hw notify_all_def log_listener_def) (simp add: log_opts_def)
  have n: "notify_all (fst ?hw) [HostPush ''/A'', Notified 7, HostReplace ''/B''] =
      [HostPush ''/A'', Notified 7, HostReplace ''/B'', Notified 7]"
    by (simp add: hw notify_all_def log_listener_def)
  from push_then_replace_notifies_twice [OF refl p r] p r n show ?thesis
    by (simp only: snd_conv simp_thms)
qed

text \<open>
  The claim as stated fails: with one registered listener, \<open>push\<close> and then
  \<open>replace\<close> notify it twice, the first time before the host sees \<open>replaceState\<close>.
\<close>

theorem push_then_replace_counterexample:
  "snd (snd (and_then
      (push log_opts ''/A'' () (listen log_opts (7, log_listener 7) (createHistory log_opts [], [])))
      (replace log_opts ''/B'' ()))) =
     [HostPush ''/A'', Notified 7, HostReplace ''/B'', Notified 7]"
  by (simp add: and_then_def push_def replace_def queueTask_def tryFlush_def h_onUpdate_def
      notify_all_def run_task_def listen_def createHistory_def log_opts_def log_listener_def)

section \<open>Properties of parseLocation\<close>

text \<open>
  Claim C10. For an href without a question mark, \<open>parseLocation\<close> returns the empty
  string as pathname and as search, and the href unchanged.
\<close>

theorem parseLocation_no_query:
  "CHR ''?'' \<notin> set h \<Longrightarrow>
     parseLocation h st = \<lparr>href = h, pathname = [], search = [], loc_state = st\<rparr>"
  by (simp add: parseLocation_def indexOf_def substring_def)

theorem parseLocation_no_query_witness:
  "CHR ''?'' \<notin> set ''/items'' \<and>
   parseLocation ''/items'' (0::nat) =
     \<lparr>href = ''/items'', pathname = [], search = [], loc_state = 0\<rparr>"
  using parseLocation_no_query [of "''/items''" "0::nat"] by simp

section \<open>Properties of the structural merge\<close>

lemma key_eq_iff:
  "(key a = key b) =
     ((if a \<in> set object_prototype_keys then [] else a) =
      (if b \<in> set object_prototype_keys then [] else b))"
  by transfer simp

lemma key_name_key:
  "s \<notin> set object_prototype_keys \<Longrightarrow> key_name (key s) = s"
  by (simp add: key.rep_eq)

lemma key_name_not_member: "key_name u \<notin> set object_prototype_keys"
  using key_name [of u] by simp

lemma key_of_member_name: "s \<in> set object_prototype_keys \<Longrightarrow> key_name (key s) = []"
  by (simp add: key.rep_eq)

lemma seq_refl: "plain_data v \<Longrightarrow> seq v v"
  by (cases v) simp_all

lemma get_prop_plain:
  "list_all (\<lambda>(u, v). plain_data v) fs \<Longrightarrow> u \<in> fst ` set fs \<Longrightarrow> plain_data (get_prop fs u)"
  by (induction fs) (auto simp: get_prop_def)

lemma d_struct_eq:
  "plain_data e \<Longrightarrow> plain_data t \<Longrightarrow> struct_eq e t \<Longrightarrow> fst (d e t fresh) = e"
  "list_all plain_data es \<Longrightarrow> list_all plain_data rs \<Longrightarrow> list_all2 struct_eq es rs \<Longrightarrow>
     fst (snd (d_elems es rs fresh)) = length rs"
  "list_all (\<lambda>(u, v). plain_data v) efs \<Longrightarrow> list_all (\<lambda>(u, v). plain_data v) rfs \<Longrightarrow>
     fst ` set rfs \<subseteq> fst ` set efs \<Longrightarrow>
     (\<forall>(u, r) \<in> set rfs. struct_eq (get_prop efs u) r) \<Longrightarrow>
     fst (snd (d_props efs rfs fresh)) = length rfs"
proof (induction e t fresh and es rs fresh and efs rfs fresh rule: d_d_elems_d_props.induct)
  case (1 e t fresh)
  show ?case
  proof (cases "seq e t")
    case True
    then show ?thesis by simp
  next
    case False
    show ?thesis
    proof (cases e)
      case (Prim p)
      with 1 show ?thesis by (cases t) auto
    next
      case (ArrayV a es)
      with "1.prems" obtain b rs where t: "t = ArrayV b rs" by (cases t) auto
      from "1.prems" ArrayV t have len: "length es = length rs"
        by (simp add: list_all2_lengthD)
      obtain c h f where l: "d_elems es rs (Suc fresh) = (c, h, f)"
        by (cases "d_elems es rs (Suc fresh)")
      from "1.IH"(1) [OF False refl ArrayV t] "1.prems" ArrayV t l have "h = length rs" by simp
      with False ArrayV t l len show ?thesis by simp
    next
      case (ObjectV a k efs)
      with "1.prems" obtain b k' rfs where t: "t = ObjectV b k' rfs" by (cases t) auto
      have Re: "R e" and Rt: "R t" using "1.prems" ObjectV t by (simp_all del: R.simps)
      have "card (set (map fst efs)) = card (set (map fst rfs))"
        using "1.prems" ObjectV t by simp
      moreover have "distinct (map fst efs)" "distinct (map fst rfs)"
        using "1.prems" ObjectV t by simp_all
      ultimately have len: "length efs = length rfs"
        by (metis distinct_card length_map)
      obtain c h f where l: "d_props efs rfs (Suc fresh) = (c, h, f)"
        by (cases "d_props efs rfs (Suc fresh)")
      have "fst (snd (d_props efs rfs (Suc fresh))) = length rfs"
        using "1.IH"(2) [OF False refl ObjectV t] Re Rt "1.prems" ObjectV t by simp
      with l have "h = length rfs" by simp
      with False ObjectV t l len Re Rt show ?thesis by simp
    qed
  qed
next
  case (2 es fresh)
  then show ?case by simp
next
  case (3 es r rs fresh)
  from "3.prems" obtain e0 es' where es: "es = e0 # es'" by (cases es) auto
  obtain c0 f1 where a: "d e0 r fresh = (c0, f1)" by (cases "d e0 r fresh")
  obtain c h f2 where b: "d_elems es' rs f1 = (c, h, f2)" by (cases "d_elems es' rs f1")
  have c0: "c0 = e0" using "3.IH"(1) [of e0 ] "3.prems" es a by simp
  have h: "h = length rs"
    using "3.IH"(2) [of e0 "(c0, f1)" c0 f1] "3.prems" es a b by simp
  have "seq e0 e0" using "3.prems" es by (simp add: seq_refl)
  with es a b c0 h show ?case by simp
next
  case (4 efs fresh)
  then show ?case by simp
next
  case (5 efs u r rfs fresh)
  let ?e0 = "get_prop efs u"
  obtain c0 f1 where a: "d ?e0 r fresh = (c0, f1)" by (cases "d ?e0 r fresh")
  obtain c h f2 where b: "d_props efs rfs f1 = (c, h, f2)" by (cases "d_props efs rfs f1")
  have pe: "plain_data ?e0" using "5.prems" by (simp add: get_prop_plain)
  have c0: "c0 = ?e0" using "5.IH"(1) [of ?e0] "5.prems" pe a by simp
  have h: "h = length rfs"
    using "5.IH"(2) [of ?e0 "(c0, f1)" c0 f1] "5.prems" a b by simp
  from pe have "seq ?e0 ?e0" by (rule seq_refl)
  with a b c0 h show ?case by simp
qed

text \<open>
  Claim C5, as the code has it. For \<open>previous\<close> and \<open>next\<close> built from primitives other
  than \<^verbatim>\<open>NaN\<close>, arrays and plain objects whose keys are not names of members of
  \<^verbatim>\<open>Object.prototype\<close>, with \<open>next\<close> structurally equal to \<open>previous\<close>, the merge
  returns \<open>previous\<close> itself; and merging any value that is identical to itself (any
  value but \<^verbatim>\<open>NaN\<close>) with itself returns it.
\<close>

theorem merge_returns_previous:
  assumes "plain_data previous" and "plain_data next'" and "struct_eq previous next'"
  shows "fst (d previous next' fresh) = previous
         \<and> seq (fst (d previous next' fresh)) previous
         \<and> (seq x x \<longrightarrow> d x x fresh = (x, fresh))"
  using assms d_struct_eq(1) [OF assms, of fresh] seq_refl [OF assms(1)] by simp

theorem merge_returns_previous_witness:
  "map key_name [key ''page'', key ''tags''] = [''page'', ''tags'']
   \<and> plain_data search1 \<and> plain_data search2 \<and> struct_eq search1 search2
   \<and> fst (d search1 search2 5) = search1
   \<and> seq (fst (d search1 search2 5)) search1"
proof -
  have k: "map key_name [key ''page'', key ''tags''] = [''page'', ''tags'']"
    by (simp add: key.rep_eq object_prototype_keys_def)
  have p1: "plain_data search1" and p2: "plain_data search2" and s: "struct_eq search1 search2"
    by (auto simp add: search1_def search2_def get_prop_def key_eq_iff key.rep_eq
        object_prototype_keys_def)
  from merge_returns_previous [OF p1 p2 s, of 5] k p1 p2 s show ?thesis by blast
qed

text \<open>
  The claim as stated fails on two instances of one class with the same field: \<open>R\<close> is
  false on them and the merge returns \<open>next\<close>. It fails on \<^verbatim>\<open>NaN\<close> too, which is not
  identical to itself.
\<close>

theorem merge_class_instance_counterexample:
  "key_name (key ''x'') = ''x''
   \<and> struct_eq point1 point2
   \<and> fst (d point1 point2 3) = point2
   \<and> \<not> seq (fst (d point1 point2 3)) point1
   \<and> \<not> seq (fst (d (Prim PNaN) (Prim PNaN) 3)) (Prim PNaN)"
  by (simp add: point1_def point2_def get_prop_def key_eq_iff key.rep_eq
      object_prototype_keys_def)

section \<open>Properties of the search codec\<close>

subsection \<open>Escaping and unescaping\<close>

lemma hex_value_hex_digit: "k < 16 \<Longrightarrow> hex_value (hex_digit k) = Some k"
  by (simp add: hex_value_def hex_digit_def Let_def)

lemma octet_escape: "octet (escape c @ rest) = Some (of_char c, rest)"
proof -
  have "(of_char c :: nat) < 256" by (simp add: of_char_def)
  then have d: "(of_char c :: nat) div 16 < 16" by arith
  have m: "(of_char c :: nat) mod 16 < 16" by simp
  show ?thesis
    by (simp add: escape_def hex_value_hex_digit [OF d] hex_value_hex_digit [OF m])
qed

lemma unreserved_ascii: "unreserved c \<Longrightarrow> (of_char c :: nat) < 128"
  by (auto simp: unreserved_def Let_def)

lemma unreserved_not_percent: "unreserved c \<Longrightarrow> c \<noteq> CHR ''%''"
  by (auto simp: unreserved_def Let_def)

lemma encodeURIComponent_Cons:
  "encodeURIComponent (c # cs) = (if unreserved c then [c] else escape c) @ encodeURIComponent cs"
  by (simp add: encodeURIComponent_def)

lemma encodeURIComponent_Nil: "encodeURIComponent [] = []"
  by (simp add: encodeURIComponent_def)

lemma encodeURIComponent_append:
  "encodeURIComponent (xs @ ys) = encodeURIComponent xs @ encodeURIComponent ys"
  by (simp add: encodeURIComponent_def)

lemma octets_escaped:
  "\<forall>x \<in> set xs. \<not> unreserved x \<Longrightarrow>
     octets (length xs) (encodeURIComponent xs @ rest) = Some (map of_char xs, rest)"
  by (induction xs) (simp_all add: encodeURIComponent_Nil encodeURIComponent_Cons octet_escape)

lemma decode_escape:
  "decodeURIComponent (escape c @ rest) =
     (case octets (sequence_length (of_char c) - 1) rest of
        None \<Rightarrow> Inl URIError
      | Some (bs, rest') \<Rightarrow>
          (if sequence_length (of_char c) = 0 \<or> code_point (of_char c # bs) = None then Inl URIError
           else (case decodeURIComponent rest' of
                   Inl e \<Rightarrow> Inl e
                 | Inr r \<Rightarrow> Inr (map char_of (of_char c # bs) @ r))))"
proof -
  obtain t where t: "escape c @ rest = CHR ''%'' # t" by (simp add: escape_def)
  have o: "octet (CHR ''%'' # t) = Some (of_char c, rest)"
    using octet_escape [of c rest] t by simp
  show ?thesis unfolding t by (simp add: o)
qed

lemma code_point_continuation:
  "code_point (b # bs) \<noteq> None \<Longrightarrow> bs \<noteq> [] \<Longrightarrow> \<forall>x \<in> set bs. continuation x"
  by (induction "b # bs" rule: code_point.induct) (auto simp: Let_def split: if_splits)

lemma continuation_reserved: "continuation (of_char x) \<Longrightarrow> \<not> unreserved x"
  using unreserved_ascii [of x] by (auto simp: continuation_def)

lemma percent_round_trip:
  "well_formed s \<Longrightarrow> decodeURIComponent (encodeURIComponent s) = Inr s"
proof (induction s rule: well_formed.induct)
  case 1
  then show ?case by (simp add: encodeURIComponent_Nil)
next
  case (2 c cs)
  define n where "n = sequence_length (of_char c)"
  define xs where "xs = take (n - 1) cs"
  define ys where "ys = drop (n - 1) cs"
  from "2.prems" have n0: "n \<noteq> 0" and len: "n - 1 \<le> length cs"
    and cp: "code_point (of_char c # map of_char xs) \<noteq> None" and wf: "well_formed ys"
    by (simp_all add: Let_def n_def xs_def ys_def)
  from "2.IH" [OF refl] wf have ih: "decodeURIComponent (encodeURIComponent ys) = Inr ys"
    by (simp add: n_def ys_def)
  have cs: "cs = xs @ ys" by (simp add: xs_def ys_def)
  have lx: "length xs = n - 1" using len by (simp add: xs_def)
  have res: "\<forall>x \<in> set xs. \<not> unreserved x"
  proof (cases "xs = []")
    case True
    then show ?thesis by simp
  next
    case False
    have "\<forall>x \<in> set (map of_char xs :: nat list). continuation x"
      by (rule code_point_continuation [OF cp]) (simp add: False)
    then show ?thesis using continuation_reserved by auto
  qed
  have oc: "octets (n - 1) (encodeURIComponent cs) = Some (map of_char xs, encodeURIComponent ys)"
    using octets_escaped [OF res, of "encodeURIComponent ys"] lx
    by (simp add: cs encodeURIComponent_append)
  have rebuilt: "map char_of (of_char c # map of_char xs :: nat list) @ ys = c # cs"
    by (simp add: comp_def cs)
  show ?case
  proof (cases "unreserved c")
    case True
    then have "n = 1" using unreserved_ascii [of c] by (simp add: sequence_length_def n_def)
    then have "ys = cs" by (simp add: ys_def)
    with ih True show ?thesis
      by (simp add: encodeURIComponent_Cons unreserved_not_percent)
  next
    case False
    then have "decodeURIComponent (encodeURIComponent (c # cs)) =
        decodeURIComponent (escape c @ encodeURIComponent cs)"
      by (simp add: encodeURIComponent_Cons)
    also have "\<dots> = Inr (map char_of (of_char c # map of_char xs :: nat list) @ ys)"
      using oc n0 cp ih by (simp add: decode_escape n_def [symmetric])
    finally show ?thesis using rebuilt by simp
  qed
qed

subsection \<open>Splitting\<close>

lemma substring_first: "substring s 0 1 = take 1 s"
  by (cases s) (simp_all add: substring_def)

lemma substring_from_second: "substring_from s 1 = drop 1 s"
  by (cases s) (simp_all add: substring_from_def substring_def)

lemma split_from_no_sep: "c \<notin> set a \<Longrightarrow> split_from c piece a = [piece @ a]"
  by (induction a arbitrary: piece) auto

lemma split_from_sep:
  "c \<notin> set a \<Longrightarrow> split_from c piece (a @ c # b) = (piece @ a) # split_from c [] b"
  by (induction a arbitrary: piece) auto

lemma js_split_no_sep: "c \<notin> set a \<Longrightarrow> js_split c a = [a]"
  by (simp add: js_split_def split_from_no_sep)

lemma js_split_sep: "c \<notin> set a \<Longrightarrow> js_split c (a @ c # b) = a # js_split c b"
  by (simp add: js_split_def split_from_sep)

lemma js_split_join:
  "ps \<noteq> [] \<Longrightarrow> \<forall>p \<in> set ps. c \<notin> set p \<Longrightarrow> js_split c (join [c] ps) = ps"
proof (induction "[c]" ps rule: join.induct)
  case 1
  then show ?case by simp
next
  case (2 x)
  then show ?case by (simp add: js_split_no_sep)
next
  case (3 x y ys)
  then show ?case using js_split_sep [of c x "join [c] (y # ys)"] by simp
qed

subsection \<open>What encodeURIComponent writes\<close>

lemma escape_chars: "x \<in> set (escape c) \<Longrightarrow> x = CHR ''%'' \<or> unreserved x"
proof -
  have "unreserved (hex_digit k)" if "k < 16" for k
    using that by (simp add: hex_digit_def unreserved_def Let_def)
  moreover have "(of_char c :: nat) div 16 < 16" "(of_char c :: nat) mod 16 < 16"
  proof -
    have "(of_char c :: nat) < 256" by (simp add: of_char_def)
    then show "(of_char c :: nat) div 16 < 16" by arith
    show "(of_char c :: nat) mod 16 < 16" by simp
  qed
  ultimately show "x \<in> set (escape c) \<Longrightarrow> x = CHR ''%'' \<or> unreserved x"
    by (auto simp: escape_def)
qed

lemma encoded_chars:
  "x \<in> set (encodeURIComponent s) \<Longrightarrow> x = CHR ''%'' \<or> unreserved x"
  by (induction s) (auto simp: encodeURIComponent_Nil encodeURIComponent_Cons dest: escape_chars split: if_splits)

lemma unreserved_not_sep: "unreserved x \<Longrightarrow> x \<noteq> CHR ''&'' \<and> x \<noteq> CHR ''=''"
  by (auto simp: unreserved_def Let_def)

lemma encoded_no_sep:
  "CHR ''&'' \<notin> set (encodeURIComponent s)" "CHR ''='' \<notin> set (encodeURIComponent s)"
  using encoded_chars [of "CHR ''&''" s] encoded_chars [of "CHR ''=''" s] unreserved_not_sep
  by auto

lemma encode_unreserved: "list_all unreserved k \<Longrightarrow> encodeURIComponent k = k"
  by (induction k) (simp_all add: encodeURIComponent_Nil encodeURIComponent_Cons)

lemma encoded_empty: "encodeURIComponent s = [] \<longleftrightarrow> s = []"
  by (cases s) (simp_all add: encodeURIComponent_Nil encodeURIComponent_Cons escape_def)

subsection \<open>One value through the codec\<close>

lemma toValue_text:
  assumes "well_formed s" "s \<noteq> []"
  shows "toValue rt (Some (encodeURIComponent s)) =
           Inr (if s = ''false'' then SBool False
                else if s = ''true'' then SBool True
                else if take 1 s = ''0'' then SStr s
                else (case toNumber rt s of Some n \<Rightarrow> SNum n | None \<Rightarrow> SStr s))"
  using assms by (simp add: toValue_def encoded_empty percent_round_trip)

lemma survives_stringified:
  "survives parser stringify rt v \<Longrightarrow>
     stringified stringify v \<noteq> SUndefined \<and> (\<forall>xs. stringified stringify v \<noteq> SArr xs)"
  by (cases v) (auto simp: stringified_def is_object_def split: sum.splits)

lemma value_round_trip:
  assumes s: "survives parser stringify rt v"
  shows "\<exists>u. toValue rt (Some (wire stringify rt v)) = Inr u \<and> parsed parser u = v"
proof (cases v)
  case SUndefined
  with s show ?thesis by simp
next
  case SNull
  with s have n: "toNumber rt ''null'' = None" and p: "parser ''null'' = Inr SNull" by simp_all
  have w: "well_formed ''null''" by (simp add: sequence_length_def)
  have "toValue rt (Some (encodeURIComponent ''null'')) = Inr (SStr ''null'')"
    by (subst toValue_text [OF w]) (simp_all add: n)
  with SNull p show ?thesis
    by (simp add: wire_def stringified_def is_object_def parsed_def)
next
  case (SBool b)
  have t: "well_formed ''true''" and f: "well_formed ''false''" by (simp_all add: sequence_length_def)
  show ?thesis
    using SBool toValue_text [OF t, of rt] toValue_text [OF f, of rt]
    by (cases b) (simp_all add: wire_def stringified_def is_object_def parsed_def)
next
  case (SNum n)
  define s' where "s' = numberToString rt n"
  from s SNum have wf: "well_formed s'" and ne: "s' \<noteq> []" and nt: "s' \<noteq> ''true''" "s' \<noteq> ''false''"
    and c: "if take 1 s' = ''0'' then parser s' = Inr (SNum n) else toNumber rt s' = Some n"
    by (simp_all add: Let_def s'_def)
  show ?thesis
    using SNum toValue_text [OF wf ne, of rt] nt c
    by (auto simp: wire_def stringified_def is_object_def parsed_def s'_def [symmetric] split: if_splits)
next
  case (SStr s')
  show ?thesis
  proof (cases "s' = []")
    case True
    with s SStr show ?thesis
      by (auto simp: wire_def stringified_def is_object_def parsed_def toValue_def
          encodeURIComponent_Nil split: sum.splits)
  next
    case False
    from s SStr have wf: "well_formed s'" by simp
    show ?thesis
      using SStr s False toValue_text [OF wf False, of rt]
      by (auto simp: wire_def stringified_def is_object_def parsed_def split: sum.splits)
  qed
next
  case (SArr xs)
  from s SArr obtain s' where st: "stringify v = Inr s'" by (auto split: sum.splits)
  with s SArr have wf: "well_formed s'" and ne: "s' \<noteq> []" by simp_all
  show ?thesis
    using SArr s st toValue_text [OF wf ne, of rt]
    by (auto simp: wire_def stringified_def is_object_def parsed_def)
next
  case (SObj fs)
  from s SObj obtain s' where st: "stringify v = Inr s'" by (auto split: sum.splits)
  with s SObj have wf: "well_formed s'" and ne: "s' \<noteq> []" by simp_all
  show ?thesis
    using SObj s st toValue_text [OF wf ne, of rt]
    by (auto simp: wire_def stringified_def is_object_def parsed_def)
next
  case (SInherited k)
  with s show ?thesis by simp
qed

subsection \<open>A whole search object through the codec\<close>

lemma join_Cons_append: "join sep ((a @ b) # ps) = a @ join sep (b # ps)"
  by (cases ps) simp_all

lemma encode_entry_survivor:
  assumes "survives parser stringify rt v"
  shows "encode_entry rt (k, stringified stringify v) str =
           (if str \<noteq> [] then str @ ''&'' else str) @ pair_text stringify rt (k, v)"
proof -
  from survives_stringified [OF assms]
  have u: "stringified stringify v \<noteq> SUndefined" and a: "\<forall>xs. stringified stringify v \<noteq> SArr xs"
    by simp_all
  show ?thesis
    using u a
    by (cases "stringified stringify v")
       (auto simp: encode_entry_def encode_pair_def pair_text_def wire_def)
qed

lemma fold_encode_entry:
  assumes "\<forall>(k, v) \<in> set obj. survives parser stringify rt v"
  shows "fold (encode_entry rt) (map (\<lambda>(key, val). (key, stringified stringify val)) obj) acc =
           (if acc = [] then join ''&'' (map (pair_text stringify rt) obj)
            else join ''&'' (acc # map (pair_text stringify rt) obj))"
  using assms
proof (induction obj arbitrary: acc)
  case Nil
  then show ?case by simp
next
  case (Cons kv obj)
  obtain k v where kv: "kv = (k, v)" by (cases kv)
  from Cons.prems kv have sv: "survives parser stringify rt v"
    and rest: "\<forall>(k, v) \<in> set obj. survives parser stringify rt v" by simp_all
  have ne: "pair_text stringify rt (k, v) \<noteq> []" by (simp add: pair_text_def)
  have j: "join ''&'' ((acc @ ''&'' @ pair_text stringify rt (k, v)) # map (pair_text stringify rt) obj) =
      acc @ ''&'' @ join ''&'' (pair_text stringify rt (k, v) # map (pair_text stringify rt) obj)"
    using join_Cons_append [of "''&''" "acc @ ''&''" "pair_text stringify rt (k, v)"] by simp
  show ?case
    using Cons.IH [OF rest] ne j
    by (simp add: kv encode_entry_survivor [OF sv])
qed

lemma set_member_new: "k \<notin> fst ` set out \<Longrightarrow> set_member out k v = out @ [(k, v)]"
  by (induction out) auto

lemma get_member_new:
  "k \<notin> fst ` set out \<Longrightarrow> k \<notin> set object_prototype_keys \<Longrightarrow> get_member out k = SUndefined"
proof -
  assume "k \<notin> fst ` set out" "k \<notin> set object_prototype_keys"
  moreover from this have "map_of out k = None" by (simp add: map_of_eq_None_iff)
  ultimately show ?thesis by (simp add: get_member_def)
qed

lemma unreserved_key_no_sep:
  "list_all unreserved k \<Longrightarrow> CHR ''&'' \<notin> set k \<and> CHR ''='' \<notin> set k"
  using unreserved_not_sep by (auto simp: list_all_iff)

lemma split_pair_text:
  assumes "list_all unreserved k"
  shows "js_split CHR ''='' (pair_text stringify rt (k, v)) = [k, wire stringify rt v]"
proof -
  have "CHR ''='' \<notin> set k" using unreserved_key_no_sep [OF assms] by simp
  then have "js_split CHR ''='' (k @ CHR ''='' # wire stringify rt v) =
      k # js_split CHR ''='' (wire stringify rt v)"
    by (rule js_split_sep)
  then show ?thesis
    by (simp add: pair_text_def encode_unreserved [OF assms] wire_def js_split_no_sep encoded_no_sep)
qed

lemma pair_text_no_amp:
  "list_all unreserved k \<Longrightarrow> CHR ''&'' \<notin> set (pair_text stringify rt (k, v))"
  using unreserved_key_no_sep [of k]
  by (simp add: pair_text_def encode_unreserved wire_def encoded_no_sep)

lemma decode_loop_pairs:
  assumes "distinct (map fst obj)"
      and "\<forall>(k, v) \<in> set obj. key_ok k \<and> survives parser stringify rt v"
      and "fst ` set obj \<inter> fst ` set out = {}"
  shows "\<exists>us. decode_loop rt (map (pair_text stringify rt) obj) out = Inr (out @ us) \<and>
              map (\<lambda>(key, val). (key, parsed parser val)) us = obj"
  using assms
proof (induction obj arbitrary: out)
  case Nil
  then show ?case by simp
next
  case (Cons kv obj)
  obtain k v where kv: "kv = (k, v)" by (cases kv)
  from Cons.prems kv have ok: "list_all unreserved k" and np: "k \<notin> set object_prototype_keys"
    and sv: "survives parser stringify rt v" and fresh: "k \<notin> fst ` set out"
    by (auto simp: key_ok_def)
  from value_round_trip [OF sv] obtain u
    where u: "toValue rt (Some (wire stringify rt v)) = Inr u" and p: "parsed parser u = v" by blast
  have d: "distinct (map fst obj)" using Cons.prems by simp
  have r: "\<forall>(k, v) \<in> set obj. key_ok k \<and> survives parser stringify rt v" using Cons.prems by simp
  have i: "fst ` set obj \<inter> fst ` set (out @ [(k, u)]) = {}"
    using Cons.prems kv by auto
  from Cons.IH [OF d r i] obtain us
    where l: "decode_loop rt (map (pair_text stringify rt) obj) (out @ [(k, u)]) = Inr ((out @ [(k, u)]) @ us)"
      and m: "map (\<lambda>(key, val). (key, parsed parser val)) us = obj" by blast
  have ne: "pair_text stringify rt (k, v) \<noteq> []" by (simp add: pair_text_def)
  have a: "decode_loop rt (map (pair_text stringify rt) (kv # obj)) out = Inr (out @ (k, u) # us)"
    using ne l u
    by (simp add: kv split_pair_text [OF ok] get_member_new [OF fresh np] set_member_new [OF fresh])
  have b: "map (\<lambda>(key, val). (key, parsed parser val)) ((k, u) # us) = kv # obj"
    using m p kv by simp
  show ?case by (rule exI [of _ "(k, u) # us"]) (simp only: a b simp_thms)
qed

text \<open>
  Claim C3, as the code has it. For every search object with distinct keys that are
  \<open>key_ok\<close> and values that survive the heuristics, parsing the stringified object
  gives the object back.
\<close>

theorem codec_round_trip:
  assumes "distinct (map fst obj)"
      and "\<forall>(k, v) \<in> set obj. key_ok k \<and> survives parser stringify rt v"
    shows "parseSearchWith parser rt (stringifySearchWith stringify rt obj) = Inr obj"
proof (cases obj)
  case Nil
  then show ?thesis
    by (simp add: parseSearchWith_def stringifySearchWith_def encode_def decode_def js_split_def
        substring_first)
next
  case (Cons kv obj')
  define pairs where "pairs = map (pair_text stringify rt) obj"
  have nu: "filter (\<lambda>(key, val). val \<noteq> SUndefined) obj = obj"
    using assms(2) by (auto simp: filter_id_conv)
  have sv: "\<forall>(k, v) \<in> set obj. survives parser stringify rt v" using assms(2) by auto
  have enc: "encode rt (map (\<lambda>(key, val). (key, stringified stringify val)) obj) None = join ''&'' pairs"
    using fold_encode_entry [OF sv, of "[]"] by (simp add: encode_def pairs_def)
  have pne: "pairs \<noteq> []" using Cons by (simp add: pairs_def)
  have amp: "\<forall>p \<in> set pairs. CHR ''&'' \<notin> set p"
    using assms(2) pair_text_no_amp by (fastforce simp: pairs_def key_ok_def)
  have jne: "join ''&'' pairs \<noteq> []"
  proof -
    obtain k v where "kv = (k, v)" by (cases kv)
    then have "pairs = pair_text stringify rt (k, v) # map (pair_text stringify rt) obj'"
      using Cons by (simp add: pairs_def)
    then show ?thesis by (cases "map (pair_text stringify rt) obj'") (simp_all add: pair_text_def)
  qed
  have str: "stringifySearchWith stringify rt obj = CHR ''?'' # join ''&'' pairs"
    using enc jne by (simp add: stringifySearchWith_def nu)
  have sp: "js_split CHR ''&'' (join ''&'' pairs) = pairs"
    using js_split_join [OF pne amp] by simp
  from decode_loop_pairs [OF assms(1) assms(2), of "[]"] obtain us
    where l: "decode_loop rt pairs [] = Inr us"
      and m: "map (\<lambda>(key, val). (key, parsed parser val)) us = obj"
    by (auto simp: pairs_def)
  show ?thesis
    using l m
    by (simp add: parseSearchWith_def str decode_def sp substring_first substring_from_second)
qed

theorem codec_round_trip_witness:
  "distinct (map fst [(''page'', SNum 12), (''q'', SStr ''red shoes''), (''on'', SBool True),
                      (''tags'', SArr [SNum 1, SNum 2])])
   \<and> list_all (\<lambda>(k, v). key_ok k \<and> survives array_parser array_stringify int_runtime v)
        [(''page'', SNum 12), (''q'', SStr ''red shoes''), (''on'', SBool True),
         (''tags'', SArr [SNum 1, SNum 2])]
   \<and> stringifySearchWith array_stringify int_runtime
        [(''page'', SNum 12), (''q'', SStr ''red shoes''), (''on'', SBool True),
         (''tags'', SArr [SNum 1, SNum 2])] =
       ''?page=12&q=red%20shoes&on=true&tags=%5B1%2C2%5D''
   \<and> parseSearchWith array_parser int_runtime
        (stringifySearchWith array_stringify int_runtime
          [(''page'', SNum 12), (''q'', SStr ''red shoes''), (''on'', SBool True),
           (''tags'', SArr [SNum 1, SNum 2])]) =
       Inr [(''page'', SNum 12), (''q'', SStr ''red shoes''), (''on'', SBool True),
            (''tags'', SArr [SNum 1, SNum 2])]"
proof -
  let ?obj = "[(''page'', SNum 12), (''q'', SStr ''red shoes''), (''on'', SBool True),
               (''tags'', SArr [SNum (1::int), SNum 2])]"
  have h1: "distinct (map fst ?obj)" by simp
  have h2: "list_all (\<lambda>(k, v). key_ok k \<and> survives array_parser array_stringify int_runtime v) ?obj"
    by code_simp
  then have h3: "\<forall>(k, v) \<in> set ?obj. key_ok k \<and> survives array_parser array_stringify int_runtime v"
    by (simp only: list_all_iff)
  have h4: "stringifySearchWith array_stringify int_runtime ?obj =
      ''?page=12&q=red%20shoes&on=true&tags=%5B1%2C2%5D''"
    by code_simp
  from codec_round_trip [OF h1 h3] h1 h2 h4 show ?thesis by simp
qed

text \<open>
  The claim as stated fails on the string \<^verbatim>\<open>true\<close>, which comes back as the boolean,
  and on the string \<^verbatim>\<open>12\<close>, which comes back as the number.
\<close>

theorem codec_round_trip_counterexample:
  "parseSearchWith array_parser int_runtime
     (stringifySearchWith array_stringify int_runtime [(''a'', SStr ''true'')]) =
     Inr [(''a'', SBool True)]
   \<and> parseSearchWith array_parser int_runtime
     (stringifySearchWith array_stringify int_runtime [(''n'', SStr ''12'')]) =
     Inr [(''n'', SNum 12)]"
  by code_simp

text \<open>
  Claim C4 at a concrete input: the value \<^verbatim>\<open>%\<close> is a bad percent escape, and
  parsing the query string \<^verbatim>\<open>?a=%\<close> throws \<^verbatim>\<open>URIError\<close> to the caller, whatever
  the parser and the runtime's number conversions are.
\<close>

theorem parseSearch_throws_on_bad_escape:
  "parseSearchWith parser rt ''?a=%'' = Inl URIError"
  by (simp add: parseSearchWith_def substring_first substring_from_second decode_def
      js_split_def get_member_def object_prototype_keys_def toValue_def)

end
